theory Spec2Isabelle
  imports Main
begin

section \<open>JavaScript strings\<close>

text \<open>
  A JavaScript string is a sequence of UTF-16 code units. A code unit is modelled as a
  natural number (below 65536 in every string the program can receive); \<open>str\<close> turns
  an ASCII literal into such a sequence.
\<close>

type_synonym jsstring = "nat list"

definition str :: "string \<Rightarrow> jsstring" where
  "str s = map of_char s"

definition ch :: "char \<Rightarrow> nat" where
  "ch c = of_char c"

text \<open>LineTerminator and WhiteSpace of ECMAScript; \<open>trim\<close> and the class \<open>\s\<close> use both.\<close>

definition is_line_terminator :: "nat \<Rightarrow> bool" where
  "is_line_terminator c = (c = 10 \<or> c = 13 \<or> c = 8232 \<or> c = 8233)"

definition is_space :: "nat \<Rightarrow> bool" where
  "is_space c = (c = 9 \<or> c = 11 \<or> c = 12 \<or> c = 32 \<or> c = 160 \<or> c = 5760
     \<or> (8192 \<le> c \<and> c \<le> 8202) \<or> c = 8239 \<or> c = 8287 \<or> c = 12288 \<or> c = 65279
     \<or> is_line_terminator c)"

text \<open>\<open>String.prototype.trim\<close>.\<close>

definition trim :: "jsstring \<Rightarrow> jsstring" where
  "trim s = rev (dropWhile is_space (rev (dropWhile is_space s)))"

text \<open>\<open>rawText.split('\n')\<close>: the separator is the code unit 10; the result is never empty.\<close>

fun split_nl :: "jsstring \<Rightarrow> jsstring list" where
  "split_nl [] = [[]]"
| "split_nl (c # cs) =
     (if c = 10 then [] # split_nl cs
      else (case split_nl cs of l # ls \<Rightarrow> (c # l) # ls | [] \<Rightarrow> [[c]]))"

text \<open>
  \<open>cleanText\<close>: both regular expressions are a single literal code unit with the flag
  \<open>g\<close>, so each replacement is a substitution code unit by code unit
  (U+202F first, then U+00A0).
\<close>

definition cleanText :: "jsstring \<Rightarrow> jsstring" where
  "cleanText text = map (\<lambda>c. if c = 160 then 32 else c) (map (\<lambda>c. if c = 8239 then 32 else c) text)"

section \<open>Regular expressions\<close>

text \<open>
  The constructs of the regular expressions of the source: assertions \<open>^\<close> and \<open>$\<close>,
  pattern characters, \<open>.\<close>, character classes over literals, \<open>\d\<close> and \<open>\s\<close>,
  capturing groups, sequences and greedy quantifiers \<open>{min,max}\<close> (\<open>*\<close>, \<open>+\<close>,
  \<open>?\<close>). A non-capturing group is its body.
\<close>

datatype citem = CChar nat | CDigit | CSpace

datatype regex =
    Eps
  | Bol
  | Eol
  | Lit nat
  | Dot
  | Cls bool "citem list"
  | Grp nat regex
  | Cat regex regex
  | Rep nat "nat option" regex

text \<open>
  A match state of ECMAScript: the end index and the captures. The captures are an
  association list read with \<open>map_of\<close>, the latest entry first; a group with no entry
  is \<open>undefined\<close>.
\<close>

record mstate =
  endIndex :: nat
  captures :: "(nat \<times> jsstring) list"

text \<open>
  Canonicalize of ECMAScript (flag \<open>i\<close>, no flag \<open>u\<close>) on the ASCII range: a code unit
  from 128 on never canonicalizes to an ASCII code unit, and every literal of the
  source's patterns is ASCII, so the comparison with a pattern character is exact.
\<close>

definition canonicalize :: "bool \<Rightarrow> nat \<Rightarrow> nat" where
  "canonicalize ic c = (if ic \<and> 97 \<le> c \<and> c \<le> 122 then c - 32 else c)"

fun citem_match :: "bool \<Rightarrow> citem \<Rightarrow> nat \<Rightarrow> bool" where
  "citem_match ic (CChar a) c = (canonicalize ic a = canonicalize ic c)"
| "citem_match ic CDigit c = (48 \<le> c \<and> c \<le> 57)"
| "citem_match ic CSpace c = is_space c"

definition char_step :: "jsstring \<Rightarrow> (nat \<Rightarrow> bool) \<Rightarrow> mstate \<Rightarrow> mstate list" where
  "char_step s p x =
     (if endIndex x < length s \<and> p (s ! endIndex x) then [x\<lparr>endIndex := Suc (endIndex x)\<rparr>] else [])"

fun groups :: "regex \<Rightarrow> nat list" where
  "groups (Grp k r) = k # groups r"
| "groups (Cat r1 r2) = groups r1 @ groups r2"
| "groups (Rep mn mx r) = groups r"
| "groups _ = []"

definition substring :: "jsstring \<Rightarrow> nat \<Rightarrow> nat \<Rightarrow> jsstring" where
  "substring s i j = take (j - i) (drop i s)"

text \<open>
  The backtracking matcher of ECMAScript. \<open>rmatch ic s r x\<close> lists, in the order in
  which backtracking tries them, the states in which \<open>r\<close> can end when started in the
  state \<open>x\<close> on the input \<open>s\<close>: a continuation applied to the first state that lets
  it succeed is the continuation-passing matcher of the standard. The clause of
  \<open>Rep\<close> is RepeatMatcher: the captures of the body are cleared for every iteration,
  an iteration that matched the empty string with \<open>min = 0\<close> fails, and a greedy
  quantifier tries one more iteration before it tries to stop.
\<close>

function rmatch :: "bool \<Rightarrow> jsstring \<Rightarrow> regex \<Rightarrow> mstate \<Rightarrow> mstate list" where
  "rmatch ic s Eps x = [x]"
| "rmatch ic s Bol x = (if endIndex x = 0 then [x] else [])"
| "rmatch ic s Eol x = (if endIndex x = length s then [x] else [])"
| "rmatch ic s (Lit a) x = char_step s (\<lambda>c. canonicalize ic a = canonicalize ic c) x"
| "rmatch ic s Dot x = char_step s (\<lambda>c. \<not> is_line_terminator c) x"
| "rmatch ic s (Cls neg items) x =
     char_step s (\<lambda>c. list_ex (\<lambda>i. citem_match ic i c) items \<noteq> neg) x"
| "rmatch ic s (Grp k r) x =
     map (\<lambda>y. y\<lparr>captures := (k, substring s (endIndex x) (endIndex y)) # captures y\<rparr>)
       (rmatch ic s r x)"
| "rmatch ic s (Cat r1 r2) x = concat (map (\<lambda>y. rmatch ic s r2 y) (rmatch ic s r1 x))"
| "rmatch ic s (Rep mn mx r) x =
     (if mx = Some 0 then [x]
      else
        let xr = x\<lparr>captures := filter (\<lambda>kv. fst kv \<notin> set (groups r)) (captures x)\<rparr>;
            more = concat (map (\<lambda>y. if mn = 0 \<and> endIndex y = endIndex x then []
                                     else rmatch ic s (Rep (mn - 1) (map_option (\<lambda>m. m - 1) mx) r) y)
                             (rmatch ic s r xr))
        in if mn = 0 then more @ [x] else more)"
  by pat_completeness auto

lemma rmatch_range_dom:
  "rmatch_dom (ic, s, r, x) \<Longrightarrow> y \<in> set (rmatch ic s r x) \<Longrightarrow>
     endIndex x \<le> endIndex y \<and> (endIndex y \<le> length s \<or> endIndex y = endIndex x)"
proof (induction ic s r x arbitrary: y rule: rmatch.pinduct)
  case (7 ic s k r x)
  then show ?case by (fastforce simp: rmatch.psimps)
next
  case (8 ic s r1 r2 x)
  then show ?case by (fastforce simp: rmatch.psimps)
next
  case (9 ic s mn mx r x)
  show ?case
  proof (cases "mx = Some 0")
    case True
    with 9 show ?thesis by (simp add: rmatch.psimps)
  next
    case False
    define xr where "xr = x\<lparr>captures := filter (\<lambda>kv. fst kv \<notin> set (groups r)) (captures x)\<rparr>"
    from 9(4) False 9(1)
    have "y = x \<or> (\<exists>z \<in> set (rmatch ic s r xr). \<not> (mn = 0 \<and> endIndex z = endIndex x) \<and>
        y \<in> set (rmatch ic s (Rep (mn - 1) (map_option (\<lambda>m. m - 1) mx) r) z))"
      by (auto simp: rmatch.psimps Let_def xr_def split: if_splits)
    then show ?thesis
    proof
      assume "y = x"
      then show ?thesis by simp
    next
      assume "\<exists>z \<in> set (rmatch ic s r xr). \<not> (mn = 0 \<and> endIndex z = endIndex x) \<and>
        y \<in> set (rmatch ic s (Rep (mn - 1) (map_option (\<lambda>m. m - 1) mx) r) z)"
      then obtain z where z: "z \<in> set (rmatch ic s r xr)" "\<not> (mn = 0 \<and> endIndex z = endIndex x)"
        "y \<in> set (rmatch ic s (Rep (mn - 1) (map_option (\<lambda>m. m - 1) mx) r) z)"
        by blast
      from 9(2)[OF False xr_def z(1)]
      have a: "endIndex x \<le> endIndex z \<and> (endIndex z \<le> length s \<or> endIndex z = endIndex x)"
        by (simp add: xr_def)
      from 9(3)[OF False xr_def z(1) z(2) z(3)]
      have b: "endIndex z \<le> endIndex y \<and> (endIndex y \<le> length s \<or> endIndex y = endIndex z)" .
      from a b show ?thesis by auto
    qed
  qed
qed (auto simp: rmatch.psimps char_step_def split: if_splits)

termination rmatch
proof (relation "measures [\<lambda>(ic, s, r, x). size r,
                           \<lambda>(ic, s, r, x). (case r of Rep mn _ _ \<Rightarrow> mn | _ \<Rightarrow> 0),
                           \<lambda>(ic, s, r, x). length s - endIndex x]", goal_cases)
  case (6 ic s mn mx r x xr y)
  from rmatch_range_dom[OF 6(5) 6(3)] 6(2) 6(4) show ?case
    by (cases mn) auto
qed auto

declare rmatch.simps(9) [simp del]

text \<open>
  RegExpBuiltinExec for a regular expression without the flags \<open>g\<close> and \<open>y\<close>: the
  match is tried at the start indices 0, 1, \dots, length in turn, and the first state
  of the first index that matches is the result.
\<close>

primrec exec_at :: "bool \<Rightarrow> regex \<Rightarrow> jsstring \<Rightarrow> nat \<Rightarrow> nat \<Rightarrow> (nat \<times> mstate) option" where
  "exec_at ic r s i 0 = None"
| "exec_at ic r s i (Suc n) =
     (case rmatch ic s r \<lparr>endIndex = i, captures = []\<rparr> of
        [] \<Rightarrow> exec_at ic r s (Suc i) n
      | y # _ \<Rightarrow> Some (i, y))"

definition regexp_exec :: "bool \<Rightarrow> regex \<Rightarrow> jsstring \<Rightarrow> (nat \<times> mstate) option" where
  "regexp_exec ic r s = exec_at ic r s 0 (Suc (length s))"

text \<open>\<open>m[k]\<close> of a match result: the capture, or \<open>None\<close> for \<open>undefined\<close>.\<close>

definition cap :: "mstate \<Rightarrow> nat \<Rightarrow> jsstring option" where
  "cap m k = map_of (captures m) k"

text \<open>\<open>s.replace(re, '')\<close> for a regular expression without the flag \<open>g\<close>.\<close>

definition replace_empty :: "bool \<Rightarrow> regex \<Rightarrow> jsstring \<Rightarrow> jsstring" where
  "replace_empty ic r s =
     (case regexp_exec ic r s of None \<Rightarrow> s | Some (i, y) \<Rightarrow> take i s @ drop (endIndex y) s)"

subsection \<open>Writing the patterns\<close>

definition seq :: "regex list \<Rightarrow> regex" where
  "seq rs = foldr Cat rs Eps"

definition digit :: regex where
  "digit = Cls False [CDigit]"

definition ws :: regex where
  "ws = Cls False [CSpace]"

definition star :: "regex \<Rightarrow> regex" where
  "star r = Rep 0 None r"

definition plus :: "regex \<Rightarrow> regex" where
  "plus r = Rep 1 None r"

definition opt :: "regex \<Rightarrow> regex" where
  "opt r = Rep 0 (Some 1) r"

definition times :: "nat \<Rightarrow> nat \<Rightarrow> regex \<Rightarrow> regex" where
  "times m n r = Rep m (Some n) r"

definition one_of :: "string \<Rightarrow> regex" where
  "one_of cs = Cls False (map (\<lambda>c. CChar (ch c)) cs)"

definition not_colon :: regex where
  "not_colon = Cls True [CChar (ch CHR '':'')]"

definition lit :: "char \<Rightarrow> regex" where
  "lit c = Lit (ch c)"

section \<open>The line-based parser\<close>

datatype error = SyntaxError | TypeError | URIError

text \<open>
  The object a pattern's \<open>parse\<close> returns. A field is \<open>None\<close> when the capture it is
  read from is \<open>undefined\<close>.
\<close>

record header =
  h_date :: "jsstring option"
  h_time :: "jsstring option"
  h_sender :: "jsstring option"
  h_content :: "jsstring option"

text \<open>A substitution of a template literal: \<open>undefined\<close> prints as its name.\<close>

definition tmpl :: "jsstring option \<Rightarrow> jsstring" where
  "tmpl v = (case v of None \<Rightarrow> str ''undefined'' | Some s \<Rightarrow> s)"

record pattern =
  p_id :: string
  p_regex :: regex
  p_ignoreCase :: bool
  p_parse :: "mstate \<Rightarrow> header"

text \<open>\<open>/^(\d{4}-\d{2}-\d{2}),\s*(\d{1,2}:\d{2})\s*([ap]\.?m\.?)\s*-\s*([^:]+):\s*(.*)/i\<close>\<close>

definition android_iso :: pattern where
  "android_iso = \<lparr>
     p_id = ''android_iso'',
     p_regex = seq [Bol,
       Grp 1 (seq [times 4 4 digit, lit CHR ''-'', times 2 2 digit, lit CHR ''-'', times 2 2 digit]),
       lit CHR '','', star ws,
       Grp 2 (seq [times 1 2 digit, lit CHR '':'', times 2 2 digit]),
       star ws,
       Grp 3 (seq [one_of ''ap'', opt (lit CHR ''.''), lit CHR ''m'', opt (lit CHR ''.'')]),
       star ws, lit CHR ''-'', star ws,
       Grp 4 (plus not_colon), lit CHR '':'', star ws,
       Grp 5 (star Dot)],
     p_ignoreCase = True,
     p_parse = (\<lambda>m. \<lparr>h_date = cap m 1, h_time = Some (tmpl (cap m 2) @ [32] @ tmpl (cap m 3)),
                       h_sender = cap m 4, h_content = cap m 5\<rparr>) \<rparr>"

text \<open>
  \<open>/^\[(\d{1,2}[/.-]\d{1,2}[/.-]\d{2,4})[,\sT]+(\d{1,2}:\d{2}(?::\d{2})?(?:\s*[APap]\.?[Mm]\.?)?)\]\s*([^:]+):\s*(.*)/i\<close>
\<close>

definition ios_brackets :: pattern where
  "ios_brackets = \<lparr>
     p_id = ''ios_brackets'',
     p_regex = seq [Bol, lit CHR ''['',
       Grp 1 (seq [times 1 2 digit, one_of ''/.-'', times 1 2 digit, one_of ''/.-'', times 2 4 digit]),
       plus (Cls False [CChar (ch CHR '',''), CSpace, CChar (ch CHR ''T'')]),
       Grp 2 (seq [times 1 2 digit, lit CHR '':'', times 2 2 digit,
                   opt (seq [lit CHR '':'', times 2 2 digit]),
                   opt (seq [star ws, one_of ''APap'', opt (lit CHR ''.''), one_of ''Mm'', opt (lit CHR ''.'')])]),
       lit CHR '']'', star ws,
       Grp 3 (plus not_colon), lit CHR '':'', star ws,
       Grp 4 (star Dot)],
     p_ignoreCase = True,
     p_parse = (\<lambda>m. \<lparr>h_date = cap m 1, h_time = cap m 2, h_sender = cap m 3, h_content = cap m 4\<rparr>) \<rparr>"

text \<open>
  \<open>/^(\d{1,2}[/.-]\d{1,2}[/.-]\d{2,4}),\s*(\d{1,2}:\d{2}\s*[APap]\.?[Mm]\.?)\s*-\s*([^:]+):\s*(.*)/i\<close>
\<close>

definition android_short :: pattern where
  "android_short = \<lparr>
     p_id = ''android_short'',
     p_regex = seq [Bol,
       Grp 1 (seq [times 1 2 digit, one_of ''/.-'', times 1 2 digit, one_of ''/.-'', times 2 4 digit]),
       lit CHR '','', star ws,
       Grp 2 (seq [times 1 2 digit, lit CHR '':'', times 2 2 digit, star ws,
                   one_of ''APap'', opt (lit CHR ''.''), one_of ''Mm'', opt (lit CHR ''.'')]),
       star ws, lit CHR ''-'', star ws,
       Grp 3 (plus not_colon), lit CHR '':'', star ws,
       Grp 4 (star Dot)],
     p_ignoreCase = True,
     p_parse = (\<lambda>m. \<lparr>h_date = cap m 1, h_time = cap m 2, h_sender = cap m 3, h_content = cap m 4\<rparr>) \<rparr>"

text \<open>\<open>/^([^\s:][^:]{0,30}):\s+(.+)/\<close>\<close>

definition generic :: pattern where
  "generic = \<lparr>
     p_id = ''generic'',
     p_regex = seq [Bol,
       Grp 1 (seq [Cls True [CSpace, CChar (ch CHR '':'')], times 0 30 not_colon]),
       lit CHR '':'', plus ws,
       Grp 2 (plus Dot)],
     p_ignoreCase = False,
     p_parse = (\<lambda>m. \<lparr>h_date = Some [], h_time = Some [], h_sender = cap m 1, h_content = cap m 2\<rparr>) \<rparr>"

definition patterns :: "pattern list" where
  "patterns = [android_iso, ios_brackets, android_short, generic]"

text \<open>
  The loop \<open>for (const p of patterns)\<close>: the first pattern whose regular expression
  matches gives \<open>extracted\<close>, and the loop breaks.
\<close>

fun first_match :: "pattern list \<Rightarrow> jsstring \<Rightarrow> header option" where
  "first_match [] l = None"
| "first_match (p # ps) l =
     (case regexp_exec (p_ignoreCase p) (p_regex p) l of
        Some (i, m) \<Rightarrow> Some (p_parse p m)
      | None \<Rightarrow> first_match ps l)"

text \<open>
  A message. The field \<open>id\<close> of the source is a random token (\<open>Math.random\<close>) that
  nothing reads and is left out. In the line-based parser \<open>content\<close> is a string; in
  the structured-data path it is the value \<open>fixMojibake\<close> returns.
\<close>

record 'c message =
  date :: jsstring
  time :: jsstring
  sender :: jsstring
  content :: 'c

text \<open>\<open>Set.prototype.add\<close> on a set kept in insertion order, as \<open>Array.from\<close> lists it.\<close>

definition set_add :: "'a list \<Rightarrow> 'a \<Rightarrow> 'a list" where
  "set_add xs x = (if x \<in> set xs then xs else xs @ [x])"

text \<open>The variables the callback of \<open>lines.forEach\<close> closes over.\<close>

record lstate =
  l_messages :: "jsstring message list"
  l_participants :: "jsstring list"
  currentMessage :: "jsstring message option"

definition push_current :: "lstate \<Rightarrow> jsstring message list" where
  "push_current st =
     (case currentMessage st of None \<Rightarrow> l_messages st | Some m \<Rightarrow> l_messages st @ [m])"

text \<open>\<open>v || d\<close> on a value that is a string or \<open>undefined\<close>.\<close>

definition or_else :: "jsstring option \<Rightarrow> jsstring \<Rightarrow> jsstring" where
  "or_else v d = (case v of None \<Rightarrow> d | Some s \<Rightarrow> if s = [] then d else s)"

text \<open>
  One call of the callback. \<open>extracted.sender.trim()\<close> and \<open>extracted.content.trim()\<close>
  raise a TypeError on \<open>undefined\<close>.
\<close>

definition line_step :: "lstate \<Rightarrow> jsstring \<Rightarrow> error + lstate" where
  "line_step st line =
     (let cleanedLine = cleanText (trim line) in
      if cleanedLine = [] then Inr st
      else
        case first_match patterns cleanedLine of
          Some extracted \<Rightarrow>
            (case h_sender extracted of
               None \<Rightarrow> Inl TypeError
             | Some s \<Rightarrow>
                 (case h_content extracted of
                    None \<Rightarrow> Inl TypeError
                  | Some c \<Rightarrow>
                      Inr \<lparr>l_messages = push_current st,
                           l_participants = set_add (l_participants st) (trim s),
                           currentMessage = Some \<lparr>date = or_else (h_date extracted) (str ''Unknown''),
                                                   time = or_else (h_time extracted) [],
                                                   sender = trim s,
                                                   content = trim c\<rparr>\<rparr>))
        | None \<Rightarrow>
            (case currentMessage st of
               Some m \<Rightarrow> Inr (st\<lparr>currentMessage := Some (m\<lparr>content := content m @ 10 # cleanedLine\<rparr>)\<rparr>)
             | None \<Rightarrow> Inr st))"

fun forEach_lines :: "lstate \<Rightarrow> jsstring list \<Rightarrow> error + lstate" where
  "forEach_lines st [] = Inr st"
| "forEach_lines st (l # ls) =
     (case line_step st l of Inl e \<Rightarrow> Inl e | Inr st' \<Rightarrow> forEach_lines st' ls)"

section \<open>The mojibake repair: escape and decodeURIComponent\<close>

text \<open>
  \<open>escape\<close> of ECMAScript (Annex B): a code unit of the unescaped set stands for itself,
  another code unit below 256 becomes \<open>%XX\<close> and any other \<open>%uXXXX\<close>, with upper-case
  hexadecimal digits.
\<close>

definition hex_digit :: "nat \<Rightarrow> nat" where
  "hex_digit d = (if d < 10 then 48 + d else 55 + d)"

definition is_unescaped :: "nat \<Rightarrow> bool" where
  "is_unescaped c = ((65 \<le> c \<and> c \<le> 90) \<or> (97 \<le> c \<and> c \<le> 122) \<or> (48 \<le> c \<and> c \<le> 57)
     \<or> c = 64 \<or> c = 42 \<or> c = 95 \<or> c = 43 \<or> c = 45 \<or> c = 46 \<or> c = 47)"

definition escape1 :: "nat \<Rightarrow> jsstring" where
  "escape1 c =
     (if is_unescaped c then [c]
      else if c < 256 then [37, hex_digit (c div 16), hex_digit (c mod 16)]
      else [37, 117, hex_digit (c div 4096 mod 16), hex_digit (c div 256 mod 16),
            hex_digit (c div 16 mod 16), hex_digit (c mod 16)])"

definition escape :: "jsstring \<Rightarrow> jsstring" where
  "escape s = concat (map escape1 s)"

text \<open>
  \<open>decodeURIComponent\<close> (the operation Decode with an empty set of preserved escapes):
  \<open>octet\<close> reads one \<open>%XX\<close>; the first octet of an escape sequence gives the number
  \<open>n\<close> of leading 1 bits; \<open>n = 0\<close> is an ASCII code unit, \<open>n = 1\<close> or \<open>n > 4\<close> is a
  URIError, and otherwise \<open>n - 1\<close> more octets follow, which must be the UTF-8 encoding of a
  code point (the well-formed byte sequences of the Unicode standard: no overlong form,
  no surrogate, nothing above U+10FFFF), appended in UTF-16.
\<close>

definition hex_val :: "nat \<Rightarrow> nat option" where
  "hex_val c =
     (if 48 \<le> c \<and> c \<le> 57 then Some (c - 48)
      else if 65 \<le> c \<and> c \<le> 70 then Some (c - 55)
      else if 97 \<le> c \<and> c \<le> 102 then Some (c - 87)
      else None)"

fun octet :: "jsstring \<Rightarrow> (nat \<times> jsstring) option" where
  "octet (p # a # b # rest) =
     (if p = 37 then
        (case hex_val a of None \<Rightarrow> None
         | Some x \<Rightarrow> (case hex_val b of None \<Rightarrow> None | Some y \<Rightarrow> Some (16 * x + y, rest)))
      else None)"
| "octet _ = None"

fun octets :: "nat \<Rightarrow> jsstring \<Rightarrow> (nat list \<times> jsstring) option" where
  "octets 0 s = Some ([], s)"
| "octets (Suc n) s =
     (case octet s of None \<Rightarrow> None
      | Some (b, rest) \<Rightarrow>
          (case octets n rest of None \<Rightarrow> None | Some (bs, rest') \<Rightarrow> Some (b # bs, rest')))"

definition leading_ones :: "nat \<Rightarrow> nat" where
  "leading_ones b =
     (if b < 128 then 0 else if b < 192 then 1 else if b < 224 then 2
      else if b < 240 then 3 else if b < 248 then 4 else 5)"

definition is_cont :: "nat \<Rightarrow> bool" where
  "is_cont b = (128 \<le> b \<and> b \<le> 191)"

fun utf8_code_point :: "nat list \<Rightarrow> nat option" where
  "utf8_code_point [b0, b1] =
     (if 194 \<le> b0 \<and> b0 \<le> 223 \<and> is_cont b1 then Some ((b0 - 192) * 64 + (b1 - 128)) else None)"
| "utf8_code_point [b0, b1, b2] =
     (if ((b0 = 224 \<and> 160 \<le> b1 \<and> b1 \<le> 191) \<or> (225 \<le> b0 \<and> b0 \<le> 236 \<and> is_cont b1)
          \<or> (b0 = 237 \<and> 128 \<le> b1 \<and> b1 \<le> 159) \<or> (238 \<le> b0 \<and> b0 \<le> 239 \<and> is_cont b1))
         \<and> is_cont b2
      then Some ((b0 - 224) * 4096 + (b1 - 128) * 64 + (b2 - 128)) else None)"
| "utf8_code_point [b0, b1, b2, b3] =
     (if ((b0 = 240 \<and> 144 \<le> b1 \<and> b1 \<le> 191) \<or> (241 \<le> b0 \<and> b0 \<le> 243 \<and> is_cont b1)
          \<or> (b0 = 244 \<and> 128 \<le> b1 \<and> b1 \<le> 143))
         \<and> is_cont b2 \<and> is_cont b3
      then Some ((b0 - 240) * 262144 + (b1 - 128) * 4096 + (b2 - 128) * 64 + (b3 - 128)) else None)"
| "utf8_code_point _ = None"

definition utf16_encode :: "nat \<Rightarrow> jsstring" where
  "utf16_encode v =
     (if v < 65536 then [v]
      else [55296 + (v - 65536) div 1024, 56320 + (v - 65536) mod 1024])"

lemma octet_length: "octet s = Some (b, rest) \<Longrightarrow> length rest < length s"
  by (induction s rule: octet.induct) (auto split: if_splits option.splits)

lemma octets_length: "octets n s = Some (bs, rest) \<Longrightarrow> length rest \<le> length s"
proof (induction n arbitrary: s bs rest)
  case 0
  then show ?case by simp
next
  case (Suc n)
  from Suc.prems obtain b r1 bs' where o: "octet s = Some (b, r1)" and r: "octets n r1 = Some (bs', rest)"
    by (auto split: option.splits)
  from octet_length[OF o] Suc.IH[OF r] show ?case by simp
qed

function decode :: "jsstring \<Rightarrow> error + jsstring" where
  "decode [] = Inr []"
| "decode (c # cs) =
     (if c \<noteq> 37 then (case decode cs of Inl e \<Rightarrow> Inl e | Inr r \<Rightarrow> Inr (c # r))
      else
        case octet (c # cs) of
          None \<Rightarrow> Inl URIError
        | Some (b, rest) \<Rightarrow>
            let n = leading_ones b in
            if n = 0 then (case decode rest of Inl e \<Rightarrow> Inl e | Inr r \<Rightarrow> Inr (b # r))
            else if n = 1 \<or> n > 4 then Inl URIError
            else
              case octets (n - 1) rest of
                None \<Rightarrow> Inl URIError
              | Some (bs, rest') \<Rightarrow>
                  (case utf8_code_point (b # bs) of
                     None \<Rightarrow> Inl URIError
                   | Some v \<Rightarrow>
                       (case decode rest' of Inl e \<Rightarrow> Inl e | Inr r \<Rightarrow> Inr (utf16_encode v @ r))))"
  by pat_completeness auto
termination
proof (relation "measure length", goal_cases)
  case 1
  then show ?case by simp
next
  case (2 c cs)
  then show ?case by simp
next
  case (3 c cs x2 b rest n)
  then show ?case using octet_length[of "c # cs" b rest] by simp
next
  case (4 c cs x2 b rest n x2a bs rest' v)
  then show ?case using octet_length[of "c # cs" b rest] octets_length[of "n - 1" rest bs rest'] by simp
qed

definition decodeURIComponent :: "jsstring \<Rightarrow> error + jsstring" where
  "decodeURIComponent s = decode s"

section \<open>JSON values and JSON.parse\<close>

text \<open>
  The values \<open>JSON.parse\<close> returns. A Number is kept as the literal it was read from:
  what the program observes of it (whether it is zero, and its ToString) is given by
  the host, see below. The members of an object are in insertion order with distinct
  keys: a repeated key overwrites the value of the first.
\<close>

datatype json =
    JNull
  | JBool bool
  | JNum jsstring
  | JStr jsstring
  | JArr "json list"
  | JObj "(jsstring \<times> json) list"

text \<open>
  The JSON grammar, in two passes: the tokens (white space is tab, line feed, carriage
  return and space; a string has no raw control character; a number is
  \<open>-? (0 | [1-9][0-9]*) (. [0-9]+)? ([eE] [+-]? [0-9]+)?\<close>), then a pushdown
  automaton over the tokens. Any text outside the grammar is a SyntaxError.
\<close>

datatype token =
    TLBrace | TRBrace | TLBracket | TRBracket | TColon | TComma
  | TString jsstring | TNumber jsstring | TTrue | TFalse | TNull

definition is_digit :: "nat \<Rightarrow> bool" where
  "is_digit c = (48 \<le> c \<and> c \<le> 57)"

definition unescape :: "nat \<Rightarrow> nat option" where
  "unescape e =
     (if e = 34 \<or> e = 92 \<or> e = 47 then Some e
      else if e = 98 then Some 8
      else if e = 102 then Some 12
      else if e = 110 then Some 10
      else if e = 114 then Some 13
      else if e = 116 then Some 9
      else None)"

definition hex4 :: "nat \<Rightarrow> nat \<Rightarrow> nat \<Rightarrow> nat \<Rightarrow> nat option" where
  "hex4 a b c d =
     (case (hex_val a, hex_val b, hex_val c, hex_val d) of
        (Some w, Some x, Some y, Some z) \<Rightarrow> Some (4096 * w + 256 * x + 16 * y + z)
      | _ \<Rightarrow> None)"

definition cons_fst :: "'a \<Rightarrow> ('a list \<times> 'b) option \<Rightarrow> ('a list \<times> 'b) option" where
  "cons_fst c r = (case r of None \<Rightarrow> None | Some (v, rest) \<Rightarrow> Some (c # v, rest))"

fun lex_string :: "jsstring \<Rightarrow> (jsstring \<times> jsstring) option" where
  "lex_string [] = None"
| "lex_string (c # cs) =
     (if c = 34 then Some ([], cs)
      else if c = 92 then
        (case cs of
           [] \<Rightarrow> None
         | e # cs1 \<Rightarrow>
             if e = 117 then
               (case cs1 of
                  a # b # c' # d # cs2 \<Rightarrow>
                    (case hex4 a b c' d of None \<Rightarrow> None | Some u \<Rightarrow> cons_fst u (lex_string cs2))
                | _ \<Rightarrow> None)
             else (case unescape e of None \<Rightarrow> None | Some u \<Rightarrow> cons_fst u (lex_string cs1)))
      else if c < 32 then None
      else cons_fst c (lex_string cs))"

definition lex_digits :: "jsstring \<Rightarrow> (jsstring \<times> jsstring) option" where
  "lex_digits s = (if takeWhile is_digit s = [] then None else Some (takeWhile is_digit s, dropWhile is_digit s))"

definition lex_int :: "jsstring \<Rightarrow> (jsstring \<times> jsstring) option" where
  "lex_int s =
     (case s of
        [] \<Rightarrow> None
      | d # r \<Rightarrow> if d = 48 then Some ([48], r) else lex_digits s)"

definition lex_frac :: "jsstring \<Rightarrow> (jsstring \<times> jsstring) option" where
  "lex_frac s =
     (case s of
        [] \<Rightarrow> Some ([], s)
      | d # r \<Rightarrow> if d = 46 then cons_fst 46 (lex_digits r) else Some ([], s))"

definition lex_exp :: "jsstring \<Rightarrow> (jsstring \<times> jsstring) option" where
  "lex_exp s =
     (case s of
        [] \<Rightarrow> Some ([], s)
      | e # r \<Rightarrow>
          if e = 101 \<or> e = 69 then
            (case r of
               [] \<Rightarrow> None
             | g # r' \<Rightarrow> if g = 43 \<or> g = 45 then cons_fst e (cons_fst g (lex_digits r'))
                         else cons_fst e (lex_digits r))
          else Some ([], s))"

definition lex_number :: "jsstring \<Rightarrow> (jsstring \<times> jsstring) option" where
  "lex_number s =
     (let sg = (case s of [] \<Rightarrow> [] | c # _ \<Rightarrow> if c = 45 then [45] else []) in
      case lex_int (drop (length sg) s) of
        None \<Rightarrow> None
      | Some (i, r1) \<Rightarrow>
          (case lex_frac r1 of
             None \<Rightarrow> None
           | Some (f, r2) \<Rightarrow>
               (case lex_exp r2 of
                  None \<Rightarrow> None
                | Some (e, r3) \<Rightarrow> Some (sg @ i @ f @ e, r3))))"

lemma cons_fst_length: "cons_fst c r = Some (v, rest) \<Longrightarrow> \<exists>v'. r = Some (v', rest)"
  by (auto simp: cons_fst_def split: option.splits)

lemma lex_string_length: "lex_string s = Some (v, rest) \<Longrightarrow> length rest < length s"
proof (induction s arbitrary: v rest rule: lex_string.induct)
  case 1
  then show ?case by simp
next
  case (2 c cs)
  then show ?case
    by (fastforce split: if_splits list.splits option.splits dest!: cons_fst_length)
qed

lemma lex_digits_length: "lex_digits s = Some (v, rest) \<Longrightarrow> length rest < length s"
proof -
  assume a: "lex_digits s = Some (v, rest)"
  then have "takeWhile is_digit s \<noteq> []" and r: "rest = dropWhile is_digit s"
    by (auto simp: lex_digits_def split: if_splits)
  then have "length (takeWhile is_digit s) > 0" by simp
  moreover have "length (takeWhile is_digit s) + length (dropWhile is_digit s) = length s"
    by (metis length_append takeWhile_dropWhile_id)
  ultimately show ?thesis unfolding r by linarith
qed

lemma lex_int_length: "lex_int s = Some (v, rest) \<Longrightarrow> length rest < length s"
  by (auto simp: lex_int_def split: list.splits if_splits dest: lex_digits_length)

lemma lex_frac_length: "lex_frac s = Some (v, rest) \<Longrightarrow> length rest \<le> length s"
  by (fastforce simp: lex_frac_def split: list.splits if_splits dest!: cons_fst_length lex_digits_length)

lemma lex_exp_length: "lex_exp s = Some (v, rest) \<Longrightarrow> length rest \<le> length s"
  by (fastforce simp: lex_exp_def split: list.splits if_splits dest!: cons_fst_length lex_digits_length)

lemma lex_number_length: "lex_number (c # cs) = Some (v, rest) \<Longrightarrow> length rest \<le> length cs"
proof -
  assume a: "lex_number (c # cs) = Some (v, rest)"
  define sg where "sg = (if c = 45 then [45::nat] else [])"
  from a obtain i r1 f r2 e where
    i: "lex_int (drop (length sg) (c # cs)) = Some (i, r1)" and
    f: "lex_frac r1 = Some (f, r2)" and e: "lex_exp r2 = Some (e, rest)"
    by (auto simp: lex_number_def sg_def Let_def split: option.splits)
  from lex_int_length[OF i] have "length r1 < length (c # cs)" by simp
  with lex_frac_length[OF f] lex_exp_length[OF e] show ?thesis by simp
qed

definition starts_with :: "jsstring \<Rightarrow> jsstring \<Rightarrow> bool" where
  "starts_with p s = (take (length p) s = p)"

function tokenize :: "jsstring \<Rightarrow> token list option" where
  "tokenize [] = Some []"
| "tokenize (c # cs) =
     (if c = 9 \<or> c = 10 \<or> c = 13 \<or> c = 32 then tokenize cs
      else if c = 123 then map_option (Cons TLBrace) (tokenize cs)
      else if c = 125 then map_option (Cons TRBrace) (tokenize cs)
      else if c = 91 then map_option (Cons TLBracket) (tokenize cs)
      else if c = 93 then map_option (Cons TRBracket) (tokenize cs)
      else if c = 58 then map_option (Cons TColon) (tokenize cs)
      else if c = 44 then map_option (Cons TComma) (tokenize cs)
      else if c = 34 then
        (case lex_string cs of
           None \<Rightarrow> None
         | Some (v, rest) \<Rightarrow> map_option (Cons (TString v)) (tokenize rest))
      else if c = 45 \<or> is_digit c then
        (case lex_number (c # cs) of
           None \<Rightarrow> None
         | Some (v, rest) \<Rightarrow> map_option (Cons (TNumber v)) (tokenize rest))
      else if starts_with (str ''true'') (c # cs) then map_option (Cons TTrue) (tokenize (drop 3 cs))
      else if starts_with (str ''false'') (c # cs) then map_option (Cons TFalse) (tokenize (drop 4 cs))
      else if starts_with (str ''null'') (c # cs) then map_option (Cons TNull) (tokenize (drop 3 cs))
      else None)"
  by pat_completeness auto
termination
proof (relation "measure length", goal_cases)
  case (9 c cs x2 v rest)
  then show ?case using lex_string_length[of cs v rest] by simp
next
  case (10 c cs x2 v rest)
  then show ?case using lex_number_length[of c cs v rest] by simp
qed simp_all

text \<open>The parser: a pushdown automaton over the tokens.\<close>

datatype frame = FArr "json list" | FObj "(jsstring \<times> json) list" "jsstring option"

datatype pmode = PValue | PArrFirst | PObjFirst | PKey | PColon | PAfter | PDone json

fun obj_set :: "(jsstring \<times> json) list \<Rightarrow> jsstring \<Rightarrow> json \<Rightarrow> (jsstring \<times> json) list" where
  "obj_set [] k v = [(k, v)]"
| "obj_set ((k', v') # ms) k v = (if k' = k then (k, v) # ms else (k', v') # obj_set ms k v)"

fun complete :: "json \<Rightarrow> frame list \<Rightarrow> (pmode \<times> frame list) option" where
  "complete v [] = Some (PDone v, [])"
| "complete v (FArr es # st) = Some (PAfter, FArr (es @ [v]) # st)"
| "complete v (FObj ms (Some k) # st) = Some (PAfter, FObj (obj_set ms k v) None # st)"
| "complete v (FObj ms None # st) = None"

fun scalar :: "token \<Rightarrow> json option" where
  "scalar (TString s) = Some (JStr s)"
| "scalar (TNumber n) = Some (JNum n)"
| "scalar TTrue = Some (JBool True)"
| "scalar TFalse = Some (JBool False)"
| "scalar TNull = Some JNull"
| "scalar _ = None"

fun pstep :: "pmode \<times> frame list \<Rightarrow> token \<Rightarrow> (pmode \<times> frame list) option" where
  "pstep (PDone v, st) t = None"
| "pstep (PColon, st) t = (if t = TColon then Some (PValue, st) else None)"
| "pstep (PKey, st) t =
     (case (t, st) of
        (TString k, FObj ms None # st') \<Rightarrow> Some (PColon, FObj ms (Some k) # st')
      | _ \<Rightarrow> None)"
| "pstep (PObjFirst, st) t =
     (case (t, st) of
        (TString k, FObj ms None # st') \<Rightarrow> Some (PColon, FObj ms (Some k) # st')
      | (TRBrace, FObj ms None # st') \<Rightarrow> complete (JObj ms) st'
      | _ \<Rightarrow> None)"
| "pstep (PAfter, st) t =
     (case (t, st) of
        (TComma, FArr es # st') \<Rightarrow> Some (PValue, st)
      | (TRBracket, FArr es # st') \<Rightarrow> complete (JArr es) st'
      | (TComma, FObj ms None # st') \<Rightarrow> Some (PKey, st)
      | (TRBrace, FObj ms None # st') \<Rightarrow> complete (JObj ms) st'
      | _ \<Rightarrow> None)"
| "pstep (PArrFirst, st) t =
     (case (t, st) of
        (TRBracket, FArr es # st') \<Rightarrow> complete (JArr es) st'
      | (TLBracket, _) \<Rightarrow> Some (PArrFirst, FArr [] # st)
      | (TLBrace, _) \<Rightarrow> Some (PObjFirst, FObj [] None # st)
      | _ \<Rightarrow> (case scalar t of Some v \<Rightarrow> complete v st | None \<Rightarrow> None))"
| "pstep (PValue, st) t =
     (case t of
        TLBracket \<Rightarrow> Some (PArrFirst, FArr [] # st)
      | TLBrace \<Rightarrow> Some (PObjFirst, FObj [] None # st)
      | _ \<Rightarrow> (case scalar t of Some v \<Rightarrow> complete v st | None \<Rightarrow> None))"

fun prun :: "pmode \<times> frame list \<Rightarrow> token list \<Rightarrow> (pmode \<times> frame list) option" where
  "prun c [] = Some c"
| "prun c (t # ts) = (case pstep c t of None \<Rightarrow> None | Some c' \<Rightarrow> prun c' ts)"

definition JSON_parse :: "jsstring \<Rightarrow> error + json" where
  "JSON_parse text =
     (case tokenize text of
        None \<Rightarrow> Inl SyntaxError
      | Some ts \<Rightarrow>
          (case prun (PValue, []) ts of
             Some (PDone v, []) \<Rightarrow> Inr v
           | _ \<Rightarrow> Inl SyntaxError))"



section \<open>The structured-data fast path\<close>

text \<open>
  What the program uses of the JavaScript host beyond strings, taken as parameters:
  \<open>upper_tbl c\<close> is \<open>toUpperCase\<close> of the one-code-unit string \<open>c\<close> for a code unit from
  128 on (the case mapping of Unicode); \<open>num_zero n\<close> says that the Number of the JSON
  literal \<open>n\<close> is \<open>+0\<close> or \<open>-0\<close>; \<open>num_text n\<close> is the ToString of that Number.
\<close>

record host =
  upper_tbl :: "nat \<Rightarrow> jsstring"
  num_zero :: "jsstring \<Rightarrow> bool"
  num_text :: "jsstring \<Rightarrow> jsstring"

text \<open>
  ToString of a value of \<open>JSON.parse\<close>. An array is joined with commas, \<open>null\<close>
  elements printing as the empty string; an object prints through
  \<open>Object.prototype.toString\<close>, unless it has a member \<open>toString\<close> of its own, which
  is not callable and leaves ToPrimitive with a TypeError.
\<close>

fun to_string :: "host \<Rightarrow> json \<Rightarrow> error + jsstring"
  and join :: "host \<Rightarrow> json list \<Rightarrow> error + jsstring" where
  "to_string h JNull = Inr (str ''null'')"
| "to_string h (JBool b) = Inr (if b then str ''true'' else str ''false'')"
| "to_string h (JNum n) = Inr (num_text h n)"
| "to_string h (JStr s) = Inr s"
| "to_string h (JArr xs) = join h xs"
| "to_string h (JObj ms) =
     (if map_of ms (str ''toString'') = None then Inr (str ''[object Object]'') else Inl TypeError)"
| "join h [] = Inr []"
| "join h (x # xs) =
     (case (if x = JNull then Inr [] else to_string h x) of
        Inl e \<Rightarrow> Inl e
      | Inr a \<Rightarrow>
          if xs = [] then Inr a
          else (case join h xs of Inl e \<Rightarrow> Inl e | Inr b \<Rightarrow> Inr (a @ 44 # b)))"

text \<open>
  \<open>fixMojibake\<close>: \<open>escape\<close> takes the ToString of its argument; whatever is thrown
  inside the \<open>try\<close> gives the argument back.
\<close>

definition fixMojibake :: "host \<Rightarrow> json \<Rightarrow> json" where
  "fixMojibake h text =
     (case to_string h text of
        Inl e \<Rightarrow> text
      | Inr s \<Rightarrow> (case decodeURIComponent (escape s) of Inl e \<Rightarrow> text | Inr r \<Rightarrow> JStr r))"

text \<open>ToBoolean of a property value; \<open>None\<close> is \<open>undefined\<close>.\<close>

fun truthy :: "host \<Rightarrow> json option \<Rightarrow> bool" where
  "truthy h None = False"
| "truthy h (Some JNull) = False"
| "truthy h (Some (JBool b)) = b"
| "truthy h (Some (JNum n)) = (\<not> num_zero h n)"
| "truthy h (Some (JStr s)) = (s \<noteq> [])"
| "truthy h (Some (JArr xs)) = True"
| "truthy h (Some (JObj ms)) = True"

text \<open>
  \<open>v.messages\<close>, \<open>v.role\<close> and \<open>v.content\<close>: a TypeError on \<open>null\<close>, the member of an
  object, and \<open>undefined\<close> on every other value (no prototype has a property of these
  names).
\<close>

fun get_field :: "json \<Rightarrow> jsstring \<Rightarrow> error + json option" where
  "get_field JNull k = Inl TypeError"
| "get_field (JObj ms) k = Inr (map_of ms k)"
| "get_field _ k = Inr None"

text \<open>\<open>toUpperCase\<close> of a one-code-unit string.\<close>

definition toUpperCase1 :: "host \<Rightarrow> nat \<Rightarrow> jsstring" where
  "toUpperCase1 h c =
     (if c < 128 then [if 97 \<le> c \<and> c \<le> 122 then c - 32 else c] else upper_tbl h c)"

record jstate =
  j_messages :: "json message list"
  j_participants :: "jsstring list"

text \<open>
  One call of the callback of \<open>jsonMessages.forEach\<close>. With a truthy \<open>msg.role\<close> that is
  not a string, \<open>msg.role.charAt\<close> is not a function: a TypeError.
\<close>

definition json_step :: "host \<Rightarrow> jstate \<Rightarrow> json \<Rightarrow> error + jstate" where
  "json_step h st msg =
     (case get_field msg (str ''role'') of
        Inl e \<Rightarrow> Inl e
      | Inr role \<Rightarrow>
          if \<not> truthy h role then Inr st
          else
            (case get_field msg (str ''content'') of
               Inl e \<Rightarrow> Inl e
             | Inr cnt \<Rightarrow>
                 if \<not> truthy h cnt then Inr st
                 else
                   (case (role, cnt) of
                      (Some (JStr (c # cs)), Some v) \<Rightarrow>
                        let sender = toUpperCase1 h c @ cs in
                        Inr \<lparr>j_messages = j_messages st @
                               [\<lparr>date = [], time = [], sender = sender, content = fixMojibake h v\<rparr>],
                             j_participants = set_add (j_participants st) sender\<rparr>
                    | _ \<Rightarrow> Inl TypeError)))"

fun json_forEach :: "host \<Rightarrow> jstate \<Rightarrow> json list \<Rightarrow> error + jstate" where
  "json_forEach h st [] = Inr st"
| "json_forEach h st (msg # msgs) =
     (case json_step h st msg of Inl e \<Rightarrow> Inl e | Inr st' \<Rightarrow> json_forEach h st' msgs)"

record ParseResult =
  messages :: "json message list"
  participants :: "jsstring list"

text \<open>\<open>Array.isArray(json) ? json : (json.messages || [])\<close>\<close>

definition candidates :: "host \<Rightarrow> json \<Rightarrow> error + json" where
  "candidates h json =
     (case json of
        JArr xs \<Rightarrow> Inr json
      | _ \<Rightarrow>
          (case get_field json (str ''messages'') of
             Inl e \<Rightarrow> Inl e
           | Inr None \<Rightarrow> Inr (JArr [])
           | Inr (Some v) \<Rightarrow> Inr (if truthy h (Some v) then v else JArr [])))"

text \<open>
  The three replacements that strip a Markdown code fence:
  \<open>/^```json\s*/i\<close>, \<open>/^```\s*/i\<close> and \<open>/\s*```$/\<close>.
\<close>

definition fence_json :: regex where
  "fence_json = seq [Bol, Lit 96, Lit 96, Lit 96, lit CHR ''j'', lit CHR ''s'', lit CHR ''o'', lit CHR ''n'', star ws]"

definition fence_open :: regex where
  "fence_open = seq [Bol, Lit 96, Lit 96, Lit 96, star ws]"

definition fence_close :: regex where
  "fence_close = seq [star ws, Lit 96, Lit 96, Lit 96, Eol]"

definition strip_fences :: "jsstring \<Rightarrow> jsstring" where
  "strip_fences s = replace_empty False fence_close (replace_empty True fence_open (replace_empty True fence_json s))"

text \<open>
  The body of the \<open>try\<close>: \<open>Inr (Some r)\<close> when it returns \<open>r\<close>, \<open>Inr None\<close> when it
  falls out of the block, \<open>Inl e\<close> when \<open>e\<close> is thrown inside it.
\<close>

definition fast_path :: "host \<Rightarrow> jsstring \<Rightarrow> error + ParseResult option" where
  "fast_path h rawText =
     (let trimmed = strip_fences (trim rawText) in
      if starts_with [123] trimmed \<or> starts_with [91] trimmed then
        (case JSON_parse trimmed of
           Inl e \<Rightarrow> Inl e
         | Inr json \<Rightarrow>
             (case candidates h json of
                Inl e \<Rightarrow> Inl e
              | Inr (JArr xs) \<Rightarrow>
                  if xs \<noteq> [] then
                    (case json_forEach h \<lparr>j_messages = [], j_participants = []\<rparr> xs of
                       Inl e \<Rightarrow> Inl e
                     | Inr st \<Rightarrow>
                         if j_messages st \<noteq> [] then
                           Inr (Some \<lparr>messages = j_messages st, participants = j_participants st\<rparr>)
                         else Inr None)
                  else Inr None
              | Inr _ \<Rightarrow> Inr None))
      else Inr None)"

text \<open>The line-based parsing after the \<open>try\<close>; a string content is the value \<open>JStr\<close>.\<close>

definition as_value :: "jsstring message \<Rightarrow> json message" where
  "as_value m = \<lparr>date = date m, time = time m, sender = sender m, content = JStr (content m)\<rparr>"

definition parseLines :: "jsstring \<Rightarrow> error + ParseResult" where
  "parseLines rawText =
     (case forEach_lines \<lparr>l_messages = [], l_participants = [], currentMessage = None\<rparr> (split_nl rawText) of
        Inl e \<Rightarrow> Inl e
      | Inr st \<Rightarrow> Inr \<lparr>messages = map as_value (push_current st), participants = l_participants st\<rparr>)"

text \<open>
  \<open>parseChat\<close>: the \<open>catch\<close> logs what was thrown in the fast path and goes on with the
  lines; an error of the line-based part is not caught.
\<close>

definition parseChat :: "host \<Rightarrow> jsstring \<Rightarrow> error + ParseResult" where
  "parseChat h rawText =
     (case fast_path h rawText of
        Inr (Some r) \<Rightarrow> Inr r
      | _ \<Rightarrow> parseLines rawText)"


text \<open>
  A host for the closed examples below. None of them reaches a code unit from 128 on in
  a role or a Number, so their results do not depend on this choice.
\<close>

definition plain_host :: host where
  "plain_host = \<lparr>upper_tbl = (\<lambda>c. [c]), num_zero = (\<lambda>n. False), num_text = (\<lambda>n. n)\<rparr>"

section \<open>Properties of the matcher\<close>

text \<open>The groups that are captured whenever a regular expression matches.\<close>

fun defined_groups :: "regex \<Rightarrow> nat list" where
  "defined_groups (Grp k r) = k # defined_groups r"
| "defined_groups (Cat r1 r2) = filter (\<lambda>k. k \<notin> set (groups r2)) (defined_groups r1) @ defined_groups r2"
| "defined_groups _ = []"

lemma map_of_filter_fst:
  "map_of (filter (\<lambda>kv. P (fst kv)) xs) k = (if P k then map_of xs k else None)"
  by (induction xs) auto

lemma rmatch_keeps_capture:
  "y \<in> set (rmatch ic s r x) \<Longrightarrow> k \<notin> set (groups r) \<Longrightarrow> map_of (captures y) k = map_of (captures x) k"
proof (induction ic s r x arbitrary: y rule: rmatch.induct)
  case (7 ic s j r x)
  then show ?case by auto
next
  case (8 ic s r1 r2 x)
  then show ?case by fastforce
next
  case (9 ic s mn mx r x)
  show ?case
  proof (cases "mx = Some 0")
    case True
    with 9 show ?thesis by (simp add: rmatch.simps(9))
  next
    case False
    define xr where "xr = x\<lparr>captures := filter (\<lambda>kv. fst kv \<notin> set (groups r)) (captures x)\<rparr>"
    from 9(4) have kr: "k \<notin> set (groups r)" by simp
    have "map_of (captures xr) k = map_of (filter (\<lambda>kv. fst kv \<notin> set (groups r)) (captures x)) k"
      by (simp add: xr_def)
    also have "\<dots> = (if k \<notin> set (groups r) then map_of (captures x) k else None)"
      by (rule map_of_filter_fst[where P="\<lambda>j. j \<notin> set (groups r)"])
    also have "\<dots> = map_of (captures x) k"
      using kr by simp
    finally have xr: "map_of (captures xr) k = map_of (captures x) k" .
    from 9(3) False
    have "y = x \<or> (\<exists>z \<in> set (rmatch ic s r xr). \<not> (mn = 0 \<and> endIndex z = endIndex x) \<and>
        y \<in> set (rmatch ic s (Rep (mn - 1) (map_option (\<lambda>m. m - 1) mx) r) z))"
      by (auto simp: rmatch.simps(9)[of ic s mn mx r x] Let_def xr_def split: if_splits)
    then show ?thesis
    proof
      assume "y = x"
      then show ?thesis by simp
    next
      assume "\<exists>z \<in> set (rmatch ic s r xr). \<not> (mn = 0 \<and> endIndex z = endIndex x) \<and>
        y \<in> set (rmatch ic s (Rep (mn - 1) (map_option (\<lambda>m. m - 1) mx) r) z)"
      then obtain z where z: "z \<in> set (rmatch ic s r xr)" "\<not> (mn = 0 \<and> endIndex z = endIndex x)"
        "y \<in> set (rmatch ic s (Rep (mn - 1) (map_option (\<lambda>m. m - 1) mx) r) z)"
        by blast
      from 9(1)[OF False xr_def z(1)] 9(4) have a: "map_of (captures z) k = map_of (captures xr) k"
        by simp
      from 9(2)[OF False xr_def z(1) z(2) z(3)] 9(4) have b: "map_of (captures y) k = map_of (captures z) k"
        by simp
      show ?thesis by (rule trans[OF b trans[OF a xr]])
    qed
  qed
qed (auto simp: char_step_def split: if_splits)


lemma rmatch_defines_groups:
  "y \<in> set (rmatch ic s r x) \<Longrightarrow> k \<in> set (defined_groups r) \<Longrightarrow> map_of (captures y) k \<noteq> None"
proof (induction r arbitrary: x y)
  case (Grp j r)
  then show ?case by auto
next
  case (Cat r1 r2)
  from Cat.prems(1) obtain z where z: "z \<in> set (rmatch ic s r1 x)" and y: "y \<in> set (rmatch ic s r2 z)"
    by auto
  show ?case
  proof (cases "k \<in> set (defined_groups r2)")
    case True
    with Cat.IH(2)[OF y] show ?thesis by simp
  next
    case False
    with Cat.prems(2) have k1: "k \<in> set (defined_groups r1)" and k2: "k \<notin> set (groups r2)"
      by auto
    from Cat.IH(1)[OF z k1] rmatch_keeps_capture[OF y k2] show ?thesis by simp
  qed
qed simp_all

lemma exec_at_Some:
  "exec_at ic r s i n = Some (j, m) \<Longrightarrow>
     rmatch ic s r \<lparr>endIndex = j, captures = []\<rparr> \<noteq> [] \<and> m = hd (rmatch ic s r \<lparr>endIndex = j, captures = []\<rparr>)"
  by (induction n arbitrary: i) (auto split: list.splits)

lemma exec_at_None:
  "(\<And>j. rmatch ic s r \<lparr>endIndex = j, captures = []\<rparr> = []) \<Longrightarrow> exec_at ic r s i n = None"
  by (induction n arbitrary: i) auto

lemma regexp_exec_defines:
  assumes "regexp_exec ic r s = Some (j, m)" and "k \<in> set (defined_groups r)"
  shows "cap m k \<noteq> None"
proof -
  from assms(1) have "exec_at ic r s 0 (Suc (length s)) = Some (j, m)"
    by (simp only: regexp_exec_def)
  from exec_at_Some[OF this]
  have ne: "rmatch ic s r \<lparr>endIndex = j, captures = []\<rparr> \<noteq> []"
    and m: "m = hd (rmatch ic s r \<lparr>endIndex = j, captures = []\<rparr>)"
    by blast+
  from list.set_sel(1)[OF ne] have "m \<in> set (rmatch ic s r \<lparr>endIndex = j, captures = []\<rparr>)"
    unfolding m .
  from rmatch_defines_groups[OF this assms(2)] show ?thesis by (simp add: cap_def)
qed

subsection \<open>A greedy quantifier over one character\<close>

text \<open>
  \<open>run p s i\<close> is the length of the longest run of code units satisfying \<open>p\<close> from the
  index \<open>i\<close>. A quantifier over a one-character matcher ends after \<open>k\<close> characters for
  every \<open>k\<close> between \<open>min\<close> and the run (capped by \<open>max\<close>), the longest first.
\<close>

definition run :: "(nat \<Rightarrow> bool) \<Rightarrow> jsstring \<Rightarrow> nat \<Rightarrow> nat" where
  "run p s i = length (takeWhile p (drop i s))"

lemma run_unfold: "run p s i = (if i < length s \<and> p (s ! i) then Suc (run p s (Suc i)) else 0)"
proof (cases "i < length s")
  case True
  then have "drop i s = s ! i # drop (Suc i) s" by (simp add: Cons_nth_drop_Suc)
  then show ?thesis using True by (simp add: run_def)
next
  case False
  then show ?thesis by (simp add: run_def)
qed

definition bound :: "nat option \<Rightarrow> nat \<Rightarrow> nat" where
  "bound mx n = (case mx of None \<Rightarrow> n | Some m \<Rightarrow> min m n)"

definition rep_ok :: "nat \<Rightarrow> nat option \<Rightarrow> bool" where
  "rep_ok mn mx = (case mx of None \<Rightarrow> True | Some m \<Rightarrow> mn \<le> m)"

lemma rep_char_closed:
  assumes atom: "\<And>x. rmatch ic s r x = char_step s p x" and g: "groups r = []"
  shows "rep_ok mn mx \<Longrightarrow> rmatch ic s (Rep mn mx r) x =
     map (\<lambda>k. x\<lparr>endIndex := endIndex x + k\<rparr>) (rev [mn ..< Suc (bound mx (run p s (endIndex x)))])"
proof (induction "length s - endIndex x" arbitrary: x mn mx rule: less_induct)
  case less
  let ?i = "endIndex x"
  let ?f = "\<lambda>k. x\<lparr>endIndex := endIndex x + k\<rparr>"
  have xr: "x\<lparr>captures := filter (\<lambda>kv. fst kv \<notin> set (groups r)) (captures x)\<rparr> = x"
    by (simp add: g)
  have f0: "?f 0 = x" by simp
  show ?case
  proof (cases "mx = Some 0")
    case True
    with less.prems have "mn = 0" by (simp add: rep_ok_def)
    with True show ?thesis by (subst rmatch.simps(9)) (simp add: bound_def)
  next
    case nz: False
    show ?thesis
    proof (cases "?i < length s \<and> p (s ! ?i)")
      case False
      then have r0: "run p s ?i = 0" by (subst run_unfold) simp
      from False have cs: "rmatch ic s r x = []" by (auto simp: atom char_step_def)
      have b0: "bound mx 0 = 0" by (simp add: bound_def split: option.splits)
      show ?thesis
        by (subst rmatch.simps(9)) (simp add: nz xr cs r0 b0)
    next
      case True
      define x1 where "x1 = x\<lparr>endIndex := Suc ?i\<rparr>"
      define mx' where "mx' = map_option (\<lambda>m. m - 1) mx"
      from True have r1: "run p s ?i = Suc (run p s (Suc ?i))" by (subst run_unfold) simp
      from True have cs: "rmatch ic s r x = [x1]" by (simp add: atom char_step_def x1_def)
      have ok': "rep_ok (mn - 1) mx'"
        using less.prems by (auto simp: rep_ok_def mx'_def split: option.splits)
      have lt: "length s - endIndex x1 < length s - ?i" using True by (auto simp: x1_def)
      have bs: "Suc (bound mx' (run p s (Suc ?i))) = bound mx (run p s ?i)"
        using nz by (cases mx) (auto simp: bound_def mx'_def r1)
      have "rmatch ic s (Rep (mn - 1) mx' r) x1 =
          map (\<lambda>k. x1\<lparr>endIndex := endIndex x1 + k\<rparr>) (rev [mn - 1 ..< Suc (bound mx' (run p s (endIndex x1)))])"
        by (rule less.hyps[OF lt ok'])
      also have "\<dots> = map (\<lambda>k. ?f (Suc k)) (rev [mn - 1 ..< bound mx (run p s ?i)])"
        by (simp add: x1_def bs)
      also have "\<dots> = map ?f (rev (map Suc [mn - 1 ..< bound mx (run p s ?i)]))"
        by (simp add: rev_map)
      also have "\<dots> = map ?f (rev [Suc (mn - 1) ..< Suc (bound mx (run p s ?i))])"
        by (simp only: map_Suc_upt)
      finally have more: "rmatch ic s (Rep (mn - 1) mx' r) x1 =
          map ?f (rev [Suc (mn - 1) ..< Suc (bound mx (run p s ?i))])" .
      have unf: "rmatch ic s (Rep mn mx r) x =
          (if mn = 0 then rmatch ic s (Rep (mn - 1) mx' r) x1 @ [x] else rmatch ic s (Rep (mn - 1) mx' r) x1)"
        by (subst rmatch.simps(9)) (simp add: nz xr cs mx'_def x1_def)
      show ?thesis
      proof (cases "mn = 0")
        case True
        have "[0 ..< Suc (bound mx (run p s ?i))] = 0 # [Suc 0 ..< Suc (bound mx (run p s ?i))]"
          by (simp add: upt_conv_Cons)
        then have "map ?f (rev [0 ..< Suc (bound mx (run p s ?i))]) =
            map ?f (rev [Suc 0 ..< Suc (bound mx (run p s ?i))]) @ [x]"
          by (simp only: rev.simps map_append list.map f0)
        with True unf more show ?thesis by simp
      next
        case False
        then have "Suc (mn - 1) = mn" by simp
        with False unf more show ?thesis by simp
      qed
    qed
  qed
qed

lemmas rx_defs = seq_def digit_def ws_def star_def plus_def opt_def times_def one_of_def
  not_colon_def lit_def ch_def

lemma rep_cls:
  "rep_ok mn mx \<Longrightarrow> rmatch ic s (Rep mn mx (Cls neg items)) x =
     map (\<lambda>k. x\<lparr>endIndex := endIndex x + k\<rparr>)
       (rev [mn ..< Suc (bound mx (run (\<lambda>c. list_ex (\<lambda>i. citem_match ic i c) items \<noteq> neg) s (endIndex x)))])"
  by (rule rep_char_closed) simp_all

lemma rep_dot:
  "rep_ok mn mx \<Longrightarrow> rmatch ic s (Rep mn mx Dot) x =
     map (\<lambda>k. x\<lparr>endIndex := endIndex x + k\<rparr>)
       (rev [mn ..< Suc (bound mx (run (\<lambda>c. \<not> is_line_terminator c) s (endIndex x)))])"
  by (rule rep_char_closed) simp_all

lemma generic_regex:
  "p_regex generic =
     Cat Bol (Cat (Grp 1 (Cat (Cls True [CSpace, CChar 58]) (Cat (Rep 0 (Some 30) (Cls True [CChar 58])) Eps)))
       (Cat (Lit 58) (Cat (Rep 1 None (Cls False [CSpace])) (Cat (Grp 2 (Rep 1 None Dot)) Eps))))"
  by (simp add: generic_def rx_defs)

lemma takeWhile_stops: "i < length xs \<Longrightarrow> \<not> P (xs ! i) \<Longrightarrow> length (takeWhile P xs) \<le> i"
proof (rule ccontr)
  assume i: "i < length xs" and np: "\<not> P (xs ! i)" and "\<not> length (takeWhile P xs) \<le> i"
  then have lt: "i < length (takeWhile P xs)" by simp
  then have "takeWhile P xs ! i \<in> set (takeWhile P xs)" by (rule nth_mem)
  then have "P (takeWhile P xs ! i)" by (rule set_takeWhileD[THEN conjunct2])
  with takeWhile_nth[OF lt] np show False by simp
qed

lemma in_Cat:
  "b \<in> set (rmatch ic s (Cat r1 r2) a) \<Longrightarrow> \<exists>z\<in>set (rmatch ic s r1 a). b \<in> set (rmatch ic s r2 z)"
  by auto

lemma in_Bol: "b \<in> set (rmatch ic s Bol a) \<Longrightarrow> b = a \<and> endIndex a = 0"
  by (cases "endIndex a = 0") simp_all

lemma in_Grp:
  "b \<in> set (rmatch ic s (Grp k r) a) \<Longrightarrow>
     \<exists>z\<in>set (rmatch ic s r a). b = z\<lparr>captures := (k, substring s (endIndex a) (endIndex z)) # captures z\<rparr>"
  by auto

lemma in_char_step:
  "b \<in> set (char_step s p a) \<Longrightarrow> endIndex a < length s \<and> p (s ! endIndex a) \<and> b = a\<lparr>endIndex := Suc (endIndex a)\<rparr>"
  by (cases "endIndex a < length s \<and> p (s ! endIndex a)") (simp_all add: char_step_def)

lemma in_Lit:
  "b \<in> set (rmatch False s (Lit c) a) \<Longrightarrow> endIndex a < length s \<and> s ! endIndex a = c \<and> b = a\<lparr>endIndex := Suc (endIndex a)\<rparr>"
  by (auto simp: canonicalize_def dest!: in_char_step)

lemma in_Cls:
  "b \<in> set (rmatch ic s (Cls neg items) a) \<Longrightarrow>
     endIndex a < length s \<and> (list_ex (\<lambda>i. citem_match ic i (s ! endIndex a)) items \<noteq> neg) \<and>
     b = a\<lparr>endIndex := Suc (endIndex a)\<rparr>"
  by (auto dest!: in_char_step)

lemma in_rep_cls:
  "b \<in> set (rmatch ic s (Rep mn mx (Cls neg items)) a) \<Longrightarrow> rep_ok mn mx \<Longrightarrow>
     \<exists>k. mn \<le> k \<and> k \<le> bound mx (run (\<lambda>c. list_ex (\<lambda>i. citem_match ic i c) items \<noteq> neg) s (endIndex a))
       \<and> b = a\<lparr>endIndex := endIndex a + k\<rparr>"
  by (auto simp: rep_cls)

lemma generic_colon:
  assumes "m \<in> set (rmatch False l (p_regex generic) x)"
  shows "length (takeWhile (\<lambda>c. c \<noteq> 58) l) \<le> 31"
proof -
  define G where "G = Cat (Cls True [CSpace, CChar 58]) (Cat (Rep 0 (Some 30) (Cls True [CChar 58])) Eps)"
  define T where "T = Cat (Rep 1 None (Cls False [CSpace])) (Cat (Grp 2 (Rep 1 None Dot)) Eps)"
  have gr: "p_regex generic = Cat Bol (Cat (Grp 1 G) (Cat (Lit 58) T))"
    by (simp add: generic_regex G_def T_def)
  from assms have "m \<in> set (rmatch False l (Cat Bol (Cat (Grp 1 G) (Cat (Lit 58) T))) x)"
    by (simp only: gr)
  then obtain x1 where x1: "x1 \<in> set (rmatch False l Bol x)"
    and m1: "m \<in> set (rmatch False l (Cat (Grp 1 G) (Cat (Lit 58) T)) x1)"
    by (blast dest: in_Cat)
  from in_Bol[OF x1] have x0: "endIndex x = 0" and xx: "x1 = x" by simp_all
  from m1 obtain g where g: "g \<in> set (rmatch False l (Grp 1 G) x)"
    and m2: "m \<in> set (rmatch False l (Cat (Lit 58) T) g)"
    unfolding xx by (blast dest: in_Cat)
  from in_Grp[OF g] obtain z where z: "z \<in> set (rmatch False l G x)" and gz: "endIndex g = endIndex z"
    by auto
  from m2 obtain c where c: "c \<in> set (rmatch False l (Lit 58) g)"
    by (blast dest: in_Cat)
  from in_Lit[OF c] gz have col: "endIndex z < length l" "l ! endIndex z = 58" by simp_all
  from z obtain a where a: "a \<in> set (rmatch False l (Cls True [CSpace, CChar 58]) x)"
    and z2: "z \<in> set (rmatch False l (Cat (Rep 0 (Some 30) (Cls True [CChar 58])) Eps) a)"
    unfolding G_def by (blast dest: in_Cat)
  from in_Cls[OF a] x0 have a1: "endIndex a = 1" by simp
  from z2 obtain b where b: "b \<in> set (rmatch False l (Rep 0 (Some 30) (Cls True [CChar 58])) a)"
    and "z \<in> set (rmatch False l Eps b)"
    by (blast dest: in_Cat)
  then have zb: "z = b" by simp
  from in_rep_cls[OF b] have "endIndex b \<le> endIndex a + 30"
    by (auto simp: rep_ok_def bound_def)
  with a1 zb have "endIndex z \<le> 31" by simp
  with takeWhile_stops[of "endIndex z" l "\<lambda>c. c \<noteq> 58"] col show ?thesis by simp
qed

lemma generic_anchored:
  "rmatch False l (p_regex generic) \<lparr>endIndex = j, captures = []\<rparr> \<noteq> [] \<Longrightarrow> j = 0"
proof (rule ccontr)
  assume ne: "rmatch False l (p_regex generic) \<lparr>endIndex = j, captures = []\<rparr> \<noteq> []" and "j \<noteq> 0"
  then have "rmatch False l (p_regex generic) \<lparr>endIndex = j, captures = []\<rparr> = []"
    by (simp add: generic_regex)
  with ne show False by simp
qed

lemma generic_long_prefix:
  assumes "31 < length (takeWhile (\<lambda>c. c \<noteq> 58) l)"
  shows "regexp_exec False (p_regex generic) l = None"
proof -
  have "rmatch False l (p_regex generic) \<lparr>endIndex = j, captures = []\<rparr> = []" for j
  proof (rule ccontr)
    assume "rmatch False l (p_regex generic) \<lparr>endIndex = j, captures = []\<rparr> \<noteq> []"
    then obtain m where "m \<in> set (rmatch False l (p_regex generic) \<lparr>endIndex = j, captures = []\<rparr>)"
      by (meson list.set_sel(1))
    from generic_colon[OF this] assms show False by simp
  qed
  then show ?thesis unfolding regexp_exec_def by (rule exec_at_None)
qed

section \<open>No pattern leaves the sender or the content undefined\<close>

lemmas pat_defs = patterns_def android_iso_def ios_brackets_def android_short_def generic_def

lemma android_iso_groups: "set (defined_groups (p_regex android_iso)) = {1, 2, 3, 4, 5}"
  by (auto simp: android_iso_def rx_defs)

lemma ios_brackets_groups: "set (defined_groups (p_regex ios_brackets)) = {1, 2, 3, 4}"
  by (auto simp: ios_brackets_def rx_defs)

lemma android_short_groups: "set (defined_groups (p_regex android_short)) = {1, 2, 3, 4}"
  by (auto simp: android_short_def rx_defs)

lemma generic_groups: "set (defined_groups (p_regex generic)) = {1, 2}"
  by (auto simp: generic_def rx_defs)

lemma pattern_defines_fields:
  assumes "p \<in> set patterns" and "regexp_exec (p_ignoreCase p) (p_regex p) l = Some (i, m)"
  shows "h_sender (p_parse p m) \<noteq> None \<and> h_content (p_parse p m) \<noteq> None"
proof -
  from assms(1) consider "p = android_iso" | "p = ios_brackets" | "p = android_short" | "p = generic"
    by (auto simp: patterns_def)
  then show ?thesis
  proof cases
    case 1
    from assms(2) have ex: "regexp_exec (p_ignoreCase android_iso) (p_regex android_iso) l = Some (i, m)"
      by (simp only: 1)
    have "cap m 4 \<noteq> None" "cap m 5 \<noteq> None"
      by (rule regexp_exec_defines[OF ex], simp add: android_iso_groups)+
    with 1 show ?thesis by (simp add: android_iso_def)
  next
    case 2
    from assms(2) have ex: "regexp_exec (p_ignoreCase ios_brackets) (p_regex ios_brackets) l = Some (i, m)"
      by (simp only: 2)
    have "cap m 3 \<noteq> None" "cap m 4 \<noteq> None"
      by (rule regexp_exec_defines[OF ex], simp add: ios_brackets_groups)+
    with 2 show ?thesis by (simp add: ios_brackets_def)
  next
    case 3
    from assms(2) have ex: "regexp_exec (p_ignoreCase android_short) (p_regex android_short) l = Some (i, m)"
      by (simp only: 3)
    have "cap m 3 \<noteq> None" "cap m 4 \<noteq> None"
      by (rule regexp_exec_defines[OF ex], simp add: android_short_groups)+
    with 3 show ?thesis by (simp add: android_short_def)
  next
    case 4
    from assms(2) have ex: "regexp_exec (p_ignoreCase generic) (p_regex generic) l = Some (i, m)"
      by (simp only: 4)
    have "cap m 1 \<noteq> None" "cap m 2 \<noteq> None"
      by (rule regexp_exec_defines[OF ex], simp add: generic_groups)+
    with 4 show ?thesis by (simp add: generic_def)
  qed
qed

lemma first_match_fields:
  "first_match ps l = Some e \<Longrightarrow> set ps \<subseteq> set patterns \<Longrightarrow> h_sender e \<noteq> None \<and> h_content e \<noteq> None"
proof (induction ps)
  case Nil
  then show ?case by simp
next
  case (Cons p ps)
  show ?case
  proof (cases "regexp_exec (p_ignoreCase p) (p_regex p) l")
    case None
    with Cons show ?thesis by simp
  next
    case (Some im)
    obtain i m where im: "im = (i, m)" by (cases im)
    from Cons.prems(1) Some im have e: "e = p_parse p m" by simp
    from Cons.prems(2) have "p \<in> set patterns" by simp
    from pattern_defines_fields[OF this Some[unfolded im]] e show ?thesis by simp
  qed
qed

lemma line_step_total: "\<exists>st'. line_step st line = Inr st'"
proof (cases "first_match patterns (cleanText (trim line))")
  case None
  then show ?thesis by (simp add: line_step_def Let_def split: option.splits)
next
  case (Some e)
  from first_match_fields[OF Some] obtain s c where "h_sender e = Some s" "h_content e = Some c"
    by auto
  with Some show ?thesis by (simp add: line_step_def Let_def)
qed

lemma forEach_lines_total: "\<exists>st'. forEach_lines st ls = Inr st'"
proof (induction ls arbitrary: st)
  case Nil
  then show ?case by simp
next
  case (Cons l ls)
  from line_step_total obtain st1 where "line_step st l = Inr st1" by blast
  with Cons.IH[of st1] show ?case by simp
qed

lemma parseLines_total: "\<exists>r. parseLines rawText = Inr r"
proof -
  from forEach_lines_total obtain st' where
    "forEach_lines \<lparr>l_messages = [], l_participants = [], currentMessage = None\<rparr> (split_nl rawText) = Inr st'"
    by blast
  then show ?thesis by (simp add: parseLines_def)
qed

lemma parseChat_total: "\<exists>r. parseChat h rawText = Inr r"
  using parseLines_total[of rawText]
  by (auto simp: parseChat_def split: sum.splits option.splits)

section \<open>Input without a code fence\<close>

text \<open>A text without a backtick is left as it is by the three replacements.\<close>

lemma canonicalize_96: "canonicalize ic 96 = canonicalize ic c \<Longrightarrow> c = 96"
  by (auto simp: canonicalize_def split: if_splits)

lemma in_Lit_96:
  assumes "b \<in> set (rmatch ic s (Lit 96) a)"
  shows "96 \<in> set s"
proof -
  from assms have "b \<in> set (char_step s (\<lambda>c. canonicalize ic 96 = canonicalize ic c) a)" by simp
  from in_char_step[OF this] have i: "endIndex a < length s" and "canonicalize ic 96 = canonicalize ic (s ! endIndex a)"
    by simp_all
  then have "s ! endIndex a = 96" by (simp add: canonicalize_96)
  with nth_mem[OF i] show ?thesis by simp
qed

lemma no_fence_json: "96 \<notin> set s \<Longrightarrow> rmatch True s fence_json a = []"
proof (rule ccontr)
  assume n: "96 \<notin> set s" and "rmatch True s fence_json a \<noteq> []"
  then obtain b where "b \<in> set (rmatch True s fence_json a)" by (meson list.set_sel(1))
  then obtain z where "z \<in> set (rmatch True s (Lit 96) a)"
    by (auto simp: fence_json_def seq_def dest!: in_Cat in_Bol)
  from in_Lit_96[OF this] n show False by simp
qed

lemma no_fence_open: "96 \<notin> set s \<Longrightarrow> rmatch True s fence_open a = []"
proof (rule ccontr)
  assume n: "96 \<notin> set s" and "rmatch True s fence_open a \<noteq> []"
  then obtain b where "b \<in> set (rmatch True s fence_open a)" by (meson list.set_sel(1))
  then obtain z where "z \<in> set (rmatch True s (Lit 96) a)"
    by (auto simp: fence_open_def seq_def dest!: in_Cat in_Bol)
  from in_Lit_96[OF this] n show False by simp
qed

lemma no_fence_close: "96 \<notin> set s \<Longrightarrow> rmatch False s fence_close a = []"
proof (rule ccontr)
  assume n: "96 \<notin> set s" and "rmatch False s fence_close a \<noteq> []"
  then obtain b where "b \<in> set (rmatch False s fence_close a)" by (meson list.set_sel(1))
  then have "\<exists>z\<in>set (rmatch False s (star ws) a). \<exists>y. y \<in> set (rmatch False s (Lit 96) z)"
    unfolding fence_close_def seq_def foldr.simps o_apply
    by (blast dest: in_Cat)
  then obtain z y where "y \<in> set (rmatch False s (Lit 96) z)" by blast
  from in_Lit_96[OF this] n show False by simp
qed

lemma strip_fences_id: "96 \<notin> set s \<Longrightarrow> strip_fences s = s"
  by (simp add: strip_fences_def replace_empty_def regexp_exec_def del: exec_at.simps
      add: exec_at_None no_fence_json no_fence_open no_fence_close)

lemma parseChat_plain:
  assumes "96 \<notin> set (trim rawText)" and "\<not> starts_with [123] (trim rawText)"
    and "\<not> starts_with [91] (trim rawText)"
  shows "parseChat h rawText = parseLines rawText"
  using assms by (simp add: parseChat_def fast_path_def strip_fences_id)

section \<open>Evaluating the parser on concrete inputs\<close>

lemmas str_defs = str_def trim_def cleanText_def is_space_def is_line_terminator_def
lemmas match_defs = rmatch.simps(9) regexp_exec_def char_step_def substring_def canonicalize_def
  cap_def replace_empty_def
lemmas line_defs = parseLines_def line_step_def push_current_def set_add_def or_else_def tmpl_def
  as_value_def
lemmas fast_defs = fast_path_def strip_fences_def fence_json_def fence_open_def fence_close_def
  starts_with_def
lemmas json_defs = JSON_parse_def lex_number_def lex_int_def lex_frac_def lex_exp_def lex_digits_def
  is_digit_def cons_fst_def unescape_def hex4_def hex_val_def candidates_def json_step_def
  toUpperCase1_def fixMojibake_def escape_def escape1_def is_unescaped_def hex_digit_def
  decodeURIComponent_def leading_ones_def is_cont_def utf16_encode_def

text \<open>An input that does not start with a brace or a bracket leaves the fast path at once.\<close>

lemma fast_path_skipped:
  "\<not> starts_with [123] (strip_fences (trim rawText)) \<Longrightarrow>
   \<not> starts_with [91] (strip_fences (trim rawText)) \<Longrightarrow> parseChat h rawText = parseLines rawText"
  by (simp add: parseChat_def fast_path_def)

lemma not_json_fast_path: "fast_path h (str ''{not valid json'') = Inl SyntaxError"
  by (simp add: rx_defs str_defs match_defs fast_defs json_defs)

lemma not_json_parse:
  "parseChat h (str ''{not valid json'') = Inr \<lparr>messages = [], participants = []\<rparr>"
  by (simp only: parseChat_def not_json_fast_path sum.case)
     (simp add: rx_defs pat_defs str_defs match_defs line_defs)

lemma two_roles_fast_path:
  "fast_path h (str ''[{\"role\":\"user\",\"content\":\"hi\"},{\"role\":\"assistant\",\"content\":\"hello\"}]'') =
   Inr (Some \<lparr>messages = [\<lparr>date = [], time = [], sender = str ''User'', content = JStr (str ''hi'')\<rparr>,
                            \<lparr>date = [], time = [], sender = str ''Assistant'', content = JStr (str ''hello'')\<rparr>],
               participants = [str ''User'', str ''Assistant'']\<rparr>)"
  by (simp add: rx_defs str_defs match_defs fast_defs json_defs set_add_def Let_def)

subsection \<open>First match wins; continuation and drop\<close>

lemma first_match_wins:
  "(\<And>q. q \<in> set ps \<Longrightarrow> regexp_exec (p_ignoreCase q) (p_regex q) l = None) \<Longrightarrow>
   regexp_exec (p_ignoreCase p) (p_regex p) l = Some (i, m) \<Longrightarrow>
   first_match (ps @ p # qs) l = Some (p_parse p m)"
  by (induction ps) simp_all

lemma android_iso_first:
  "regexp_exec True (p_regex android_iso) l = Some (i, m) \<Longrightarrow>
   first_match patterns l = Some (p_parse android_iso m)"
  by (simp add: patterns_def) (simp add: android_iso_def)

definition sam_line :: jsstring where
  "sam_line = str ''2025-06-12, 11:20 a.m. - Sam: hello''"

definition sam_match :: mstate where
  "sam_match = \<lparr>endIndex = 35, captures = [(5, str ''hello''), (4, str ''Sam''), (3, str ''a.m.''),
     (2, str ''11:20''), (1, str ''2025-06-12'')]\<rparr>"

lemma sam_exec: "regexp_exec True (p_regex android_iso) sam_line = Some (0, sam_match)"
  by (simp add: sam_line_def sam_match_def android_iso_def rx_defs str_defs match_defs)

lemma sam_parse:
  "parseChat h sam_line =
     Inr \<lparr>messages = [\<lparr>date = str ''2025-06-12'', time = str ''11:20 a.m.'', sender = str ''Sam'',
                          content = JStr (str ''hello'')\<rparr>],
          participants = [str ''Sam'']\<rparr>"
proof -
  have "parseChat h sam_line = parseLines sam_line"
    by (rule parseChat_plain) (simp_all add: sam_line_def str_defs starts_with_def)
  also have "\<dots> = Inr \<lparr>messages = [\<lparr>date = str ''2025-06-12'', time = str ''11:20 a.m.'', sender = str ''Sam'',
                          content = JStr (str ''hello'')\<rparr>],
          participants = [str ''Sam'']\<rparr>"
    by (simp add: sam_line_def rx_defs pat_defs str_defs match_defs line_defs)
  finally show ?thesis .
qed

definition alex_line :: jsstring where
  "alex_line = str ''Alex: first line''"

definition alex_match :: mstate where
  "alex_match = \<lparr>endIndex = 16, captures = [(2, str ''first line''), (1, str ''Alex'')]\<rparr>"

lemma alex_dated_none:
  "regexp_exec True (p_regex android_iso) alex_line = None"
  "regexp_exec True (p_regex ios_brackets) alex_line = None"
  "regexp_exec True (p_regex android_short) alex_line = None"
  by (simp_all add: alex_line_def pat_defs rx_defs str_defs match_defs)

lemma alex_exec: "regexp_exec False (p_regex generic) alex_line = Some (0, alex_match)"
  by (simp add: alex_line_def alex_match_def generic_def rx_defs str_defs match_defs)

lemma continuation_step:
  assumes "cleanText (trim line) \<noteq> []" and "first_match patterns (cleanText (trim line)) = None"
    and "currentMessage st = Some m"
  shows "line_step st line =
     Inr (st\<lparr>currentMessage := Some (m\<lparr>content := content m @ 10 # cleanText (trim line)\<rparr>)\<rparr>)"
  using assms by (simp add: line_step_def Let_def)

lemma drop_step:
  assumes "first_match patterns (cleanText (trim line)) = None" and "currentMessage st = None"
  shows "line_step st line = Inr st"
  using assms by (simp add: line_step_def Let_def)

lemma second_line_none: "first_match patterns (str ''second line'') = None"
  by (simp add: pat_defs rx_defs str_defs match_defs)

lemma second_line_clean: "cleanText (trim (str ''second line'')) = str ''second line''"
  by (simp add: str_defs)

lemma alex_two_lines:
  "parseChat h (str ''Alex: first line'' @ [10] @ str ''second line'') =
     Inr \<lparr>messages = [\<lparr>date = str ''Unknown'', time = [], sender = str ''Alex'',
                          content = JStr (str ''first line'' @ [10] @ str ''second line'')\<rparr>],
          participants = [str ''Alex'']\<rparr>"
proof -
  have "parseChat h (str ''Alex: first line'' @ [10] @ str ''second line'') = parseLines (str ''Alex: first line'' @ [10] @ str ''second line'')"
    by (rule parseChat_plain) (simp_all add: str_defs starts_with_def)
  also have "\<dots> = Inr \<lparr>messages = [\<lparr>date = str ''Unknown'', time = [], sender = str ''Alex'',
                          content = JStr (str ''first line'' @ [10] @ str ''second line'')\<rparr>],
          participants = [str ''Alex'']\<rparr>"
    by (simp add: rx_defs pat_defs str_defs match_defs line_defs)
  finally show ?thesis .
qed

subsection \<open>A header line and the lines that follow it\<close>

text \<open>
  A header line of any of the four patterns leaves a message accumulating; once a header
  line has been seen a message is accumulating for the rest of the loop.
\<close>

lemma no_header_empty: "first_match patterns [] = None"
  by (simp add: pat_defs rx_defs match_defs)

lemma header_step:
  assumes fm: "first_match patterns (cleanText (trim hl)) = Some e"
  shows "\<exists>s c. h_sender e = Some s \<and> h_content e = Some c \<and>
     line_step st hl =
       Inr \<lparr>l_messages = push_current st, l_participants = set_add (l_participants st) (trim s),
            currentMessage = Some \<lparr>date = or_else (h_date e) (str ''Unknown''),
                                    time = or_else (h_time e) [], sender = trim s, content = trim c\<rparr>\<rparr>"
proof -
  from fm no_header_empty have ne: "cleanText (trim hl) \<noteq> []" by auto
  from first_match_fields[OF fm] obtain s c where sc: "h_sender e = Some s" "h_content e = Some c"
    by auto
  with fm ne show ?thesis by (simp add: line_step_def Let_def)
qed

lemma header_then_continuation:
  assumes fm: "first_match patterns (cleanText (trim hl)) = Some e"
    and ne: "cleanText (trim l) \<noteq> []" and nm: "first_match patterns (cleanText (trim l)) = None"
  shows "\<exists>s c. h_sender e = Some s \<and> h_content e = Some c \<and>
     forEach_lines st [hl, l] =
       Inr \<lparr>l_messages = push_current st, l_participants = set_add (l_participants st) (trim s),
            currentMessage = Some \<lparr>date = or_else (h_date e) (str ''Unknown''),
                                    time = or_else (h_time e) [], sender = trim s,
                                    content = trim c @ 10 # cleanText (trim l)\<rparr>\<rparr>"
proof -
  from header_step[OF fm, of st] obtain s c where sc: "h_sender e = Some s" "h_content e = Some c"
    and st: "line_step st hl =
       Inr \<lparr>l_messages = push_current st, l_participants = set_add (l_participants st) (trim s),
            currentMessage = Some \<lparr>date = or_else (h_date e) (str ''Unknown''),
                                    time = or_else (h_time e) [], sender = trim s, content = trim c\<rparr>\<rparr>"
    by blast
  have "line_step \<lparr>l_messages = push_current st, l_participants = set_add (l_participants st) (trim s),
            currentMessage = Some \<lparr>date = or_else (h_date e) (str ''Unknown''),
                                    time = or_else (h_time e) [], sender = trim s, content = trim c\<rparr>\<rparr> l =
       Inr \<lparr>l_messages = push_current st, l_participants = set_add (l_participants st) (trim s),
            currentMessage = Some \<lparr>date = or_else (h_date e) (str ''Unknown''),
                                    time = or_else (h_time e) [], sender = trim s,
                                    content = trim c @ 10 # cleanText (trim l)\<rparr>\<rparr>"
    using ne nm by (simp add: line_step_def Let_def)
  with sc st show ?thesis by simp
qed

lemma line_step_keeps_current:
  assumes "line_step st l = Inr st'" and "currentMessage st \<noteq> None"
  shows "currentMessage st' \<noteq> None"
  using assms by (auto simp: line_step_def Let_def split: if_splits option.splits)

lemma header_seen:
  "forEach_lines st ls = Inr st' \<Longrightarrow>
   currentMessage st \<noteq> None \<or> (\<exists>a\<in>set ls. first_match patterns (cleanText (trim a)) \<noteq> None) \<Longrightarrow>
   currentMessage st' \<noteq> None"
proof (induction ls arbitrary: st)
  case Nil
  then show ?case by simp
next
  case (Cons l ls)
  from Cons.prems(1) obtain st1 where s1: "line_step st l = Inr st1"
    and r: "forEach_lines st1 ls = Inr st'"
    by (auto split: sum.splits)
  have "currentMessage st1 \<noteq> None \<or> (\<exists>a\<in>set ls. first_match patterns (cleanText (trim a)) \<noteq> None)"
  proof (cases "first_match patterns (cleanText (trim l))")
    case (Some e)
    from header_step[OF Some, of st] s1 have "currentMessage st1 \<noteq> None" by auto
    then show ?thesis by simp
  next
    case None
    with Cons.prems(2) consider "currentMessage st \<noteq> None"
      | "\<exists>a\<in>set ls. first_match patterns (cleanText (trim a)) \<noteq> None"
      by auto
    then show ?thesis
    proof cases
      case 1
      from line_step_keeps_current[OF s1 1] show ?thesis by simp
    next
      case 2
      then show ?thesis by simp
    qed
  qed
  from Cons.IH[OF r this] show ?case .
qed

lemma forEach_lines_append:
  "forEach_lines st (ls @ ms) =
     (case forEach_lines st ls of Inl e \<Rightarrow> Inl e | Inr st' \<Rightarrow> forEach_lines st' ms)"
  by (induction ls arbitrary: st) (simp_all split: sum.splits)

lemma continuation_after_header:
  assumes hd: "\<exists>a\<in>set ls. first_match patterns (cleanText (trim a)) \<noteq> None"
    and ne: "cleanText (trim l) \<noteq> []" and nm: "first_match patterns (cleanText (trim l)) = None"
  shows "\<exists>st' m. forEach_lines st ls = Inr st' \<and> currentMessage st' = Some m \<and>
     forEach_lines st (ls @ [l]) =
       Inr (st'\<lparr>currentMessage := Some (m\<lparr>content := content m @ 10 # cleanText (trim l)\<rparr>)\<rparr>)"
proof -
  from forEach_lines_total obtain st' where f: "forEach_lines st ls = Inr st'" by blast
  from header_seen[OF f] hd obtain m where m: "currentMessage st' = Some m" by auto
  from continuation_step[OF ne nm m] f m show ?thesis by (simp add: forEach_lines_append)
qed

lemma continuation_in_result:
  assumes sp: "split_nl rawText = ls @ [l]"
    and hd: "\<exists>a\<in>set ls. first_match patterns (cleanText (trim a)) \<noteq> None"
    and ne: "cleanText (trim l) \<noteq> []" and nm: "first_match patterns (cleanText (trim l)) = None"
  shows "\<exists>st' m. forEach_lines \<lparr>l_messages = [], l_participants = [], currentMessage = None\<rparr> ls = Inr st'
     \<and> currentMessage st' = Some m
     \<and> parseLines rawText =
         Inr \<lparr>messages = map as_value (l_messages st' @ [m\<lparr>content := content m @ 10 # cleanText (trim l)\<rparr>]),
              participants = l_participants st'\<rparr>"
proof -
  from continuation_after_header[OF hd ne nm, of "\<lparr>l_messages = [], l_participants = [], currentMessage = None\<rparr>"]
  obtain st' m where f: "forEach_lines \<lparr>l_messages = [], l_participants = [], currentMessage = None\<rparr> ls = Inr st'"
    and m: "currentMessage st' = Some m"
    and g: "forEach_lines \<lparr>l_messages = [], l_participants = [], currentMessage = None\<rparr> (ls @ [l]) =
       Inr (st'\<lparr>currentMessage := Some (m\<lparr>content := content m @ 10 # cleanText (trim l)\<rparr>)\<rparr>)"
    by blast
  from g sp have "parseLines rawText =
         Inr \<lparr>messages = map as_value (l_messages st' @ [m\<lparr>content := content m @ 10 # cleanText (trim l)\<rparr>]),
              participants = l_participants st'\<rparr>"
    by (simp add: parseLines_def push_current_def)
  with f m show ?thesis by blast
qed

lemma sam_line_clean: "cleanText (trim sam_line) = sam_line"
  by (simp add: sam_line_def str_defs)

lemma sam_first_match: "first_match patterns sam_line = Some (p_parse android_iso sam_match)"
  by (rule android_iso_first[OF sam_exec])

definition sam_two :: jsstring where
  "sam_two = sam_line @ [10] @ str ''second line''"

lemma sam_two_split: "split_nl sam_two = [sam_line] @ [str ''second line'']"
  by (simp add: sam_two_def sam_line_def str_def)

definition lstate0 :: lstate where
  "lstate0 = \<lparr>l_messages = [], l_participants = [], currentMessage = None\<rparr>"

section \<open>Participants, dates and times of both paths\<close>

text \<open>The distinct elements of a list, each at its first occurrence.\<close>

fun first_seen :: "'a list \<Rightarrow> 'a list" where
  "first_seen [] = []"
| "first_seen (a # as) = a # filter (\<lambda>b. b \<noteq> a) (first_seen as)"

lemma set_first_seen: "set (first_seen as) = set as"
  by (induction as) auto

lemma distinct_first_seen: "distinct (first_seen as)"
  by (induction as) auto

lemma first_seen_snoc: "first_seen (as @ [a]) = set_add (first_seen as) a"
proof (induction as)
  case Nil
  then show ?case by (simp add: set_add_def)
next
  case (Cons b as)
  show ?case
  proof (cases "a = b")
    case True
    then show ?thesis using Cons by (simp add: set_add_def)
  next
    case False
    then show ?thesis using Cons by (auto simp: set_add_def set_first_seen)
  qed
qed

definition json_inv :: "jstate \<Rightarrow> bool" where
  "json_inv st = (j_participants st = first_seen (map sender (j_messages st))
     \<and> list_all (\<lambda>m. date m = [] \<and> time m = []) (j_messages st))"

lemma json_step_inv: "json_step h st msg = Inr st' \<Longrightarrow> json_inv st \<Longrightarrow> json_inv st'"
  by (auto simp: json_step_def json_inv_def first_seen_snoc Let_def
      split: sum.splits if_splits option.splits json.splits list.splits)

lemma json_forEach_inv: "json_forEach h st msgs = Inr st' \<Longrightarrow> json_inv st \<Longrightarrow> json_inv st'"
proof (induction msgs arbitrary: st)
  case Nil
  then show ?case by simp
next
  case (Cons msg msgs)
  from Cons.prems(1) obtain st1 where s1: "json_step h st msg = Inr st1"
    and r: "json_forEach h st1 msgs = Inr st'"
    by (auto split: sum.splits)
  from json_step_inv[OF s1 Cons.prems(2)] Cons.IH[OF r] show ?case by simp
qed

lemma fast_path_inv:
  assumes "fast_path h rawText = Inr (Some r)"
  shows "participants r = first_seen (map sender (messages r))
     \<and> list_all (\<lambda>m. date m = [] \<and> time m = []) (messages r)"
proof -
  from assms obtain msgs st where fe: "json_forEach h \<lparr>j_messages = [], j_participants = []\<rparr> msgs = Inr st"
    and r: "r = \<lparr>messages = j_messages st, participants = j_participants st\<rparr>"
    by (auto simp: fast_path_def Let_def split: if_splits sum.splits json.splits)
  have "json_inv \<lparr>j_messages = [], j_participants = []\<rparr>" by (simp add: json_inv_def)
  from json_forEach_inv[OF fe this] r show ?thesis by (simp add: json_inv_def)
qed

definition line_inv :: "lstate \<Rightarrow> bool" where
  "line_inv st = (l_participants st = first_seen (map sender (push_current st)))"

lemma line_step_inv: "line_step st line = Inr st' \<Longrightarrow> line_inv st \<Longrightarrow> line_inv st'"
  by (auto simp: line_step_def line_inv_def push_current_def first_seen_snoc Let_def
      split: if_splits option.splits)

lemma forEach_lines_inv: "forEach_lines st ls = Inr st' \<Longrightarrow> line_inv st \<Longrightarrow> line_inv st'"
proof (induction ls arbitrary: st)
  case Nil
  then show ?case by simp
next
  case (Cons l ls)
  from Cons.prems(1) obtain st1 where s1: "line_step st l = Inr st1"
    and r: "forEach_lines st1 ls = Inr st'"
    by (auto split: sum.splits)
  from line_step_inv[OF s1 Cons.prems(2)] Cons.IH[OF r] show ?case by simp
qed

lemma sender_as_value: "map (sender \<circ> as_value) ms = map sender ms"
  by (induction ms) (simp_all add: as_value_def)

lemma parseLines_inv:
  assumes "parseLines rawText = Inr r"
  shows "participants r = first_seen (map sender (messages r))"
proof -
  from assms obtain st where fe: "forEach_lines \<lparr>l_messages = [], l_participants = [], currentMessage = None\<rparr> (split_nl rawText) = Inr st"
    and r: "r = \<lparr>messages = map as_value (push_current st), participants = l_participants st\<rparr>"
    by (auto simp: parseLines_def split: sum.splits)
  have "line_inv \<lparr>l_messages = [], l_participants = [], currentMessage = None\<rparr>"
    by (simp add: line_inv_def push_current_def)
  from forEach_lines_inv[OF fe this] r show ?thesis by (simp add: line_inv_def sender_as_value)
qed

lemma parseChat_participants:
  assumes "parseChat h rawText = Inr r"
  shows "participants r = first_seen (map sender (messages r))"
proof (cases "fast_path h rawText")
  case (Inl e)
  with assms have "parseLines rawText = Inr r" by (simp add: parseChat_def)
  then show ?thesis by (rule parseLines_inv)
next
  case (Inr o1)
  show ?thesis
  proof (cases o1)
    case None
    with Inr assms have "parseLines rawText = Inr r" by (simp add: parseChat_def)
    then show ?thesis by (rule parseLines_inv)
  next
    case (Some r')
    with Inr assms have "r' = r" by (simp add: parseChat_def)
    with Inr Some fast_path_inv[of h rawText r] show ?thesis by simp
  qed
qed

subsection \<open>A header line of the generic pattern\<close>

lemma generic_header_step:
  assumes d: "regexp_exec True (p_regex android_iso) (cleanText (trim line)) = None"
    "regexp_exec True (p_regex ios_brackets) (cleanText (trim line)) = None"
    "regexp_exec True (p_regex android_short) (cleanText (trim line)) = None"
    and g: "regexp_exec False (p_regex generic) (cleanText (trim line)) = Some (i, m)"
  shows "\<exists>s c. cap m 1 = Some s \<and> cap m 2 = Some c \<and>
     line_step st line =
       Inr \<lparr>l_messages = push_current st, l_participants = set_add (l_participants st) (trim s),
            currentMessage = Some \<lparr>date = str ''Unknown'', time = [], sender = trim s, content = trim c\<rparr>\<rparr>"
proof -
  have "cap m 1 \<noteq> None" "cap m 2 \<noteq> None"
    by (rule regexp_exec_defines[OF g], simp add: generic_groups)+
  then obtain s c where sc: "cap m 1 = Some s" "cap m 2 = Some c" by auto
  have ne: "cleanText (trim line) \<noteq> []"
  proof
    assume "cleanText (trim line) = []"
    with g show False by (simp add: generic_def rx_defs match_defs)
  qed
  have fm: "first_match patterns (cleanText (trim line)) = Some (p_parse generic m)"
    using d g by (simp add: patterns_def) (simp add: android_iso_def ios_brackets_def android_short_def generic_def)
  have "p_parse generic m = \<lparr>h_date = Some [], h_time = Some [], h_sender = Some s, h_content = Some c\<rparr>"
    using sc by (simp add: generic_def)
  with fm ne sc show ?thesis by (simp add: line_step_def Let_def or_else_def)
qed

lemma alex_line_clean: "cleanText (trim alex_line) = alex_line"
  by (simp add: alex_line_def str_defs)

lemma alex_parse:
  "parseChat h alex_line =
     Inr \<lparr>messages = [\<lparr>date = str ''Unknown'', time = [], sender = str ''Alex'',
                          content = JStr (str ''first line'')\<rparr>],
          participants = [str ''Alex'']\<rparr>"
proof -
  have "parseChat h alex_line = parseLines alex_line"
    by (rule parseChat_plain) (simp_all add: alex_line_def str_defs starts_with_def)
  also have "\<dots> = Inr \<lparr>messages = [\<lparr>date = str ''Unknown'', time = [], sender = str ''Alex'',
                          content = JStr (str ''first line'')\<rparr>],
          participants = [str ''Alex'']\<rparr>"
    by (simp add: alex_line_def rx_defs pat_defs str_defs match_defs line_defs)
  finally show ?thesis .
qed

lemma alex_first_match: "first_match patterns alex_line = Some (p_parse generic alex_match)"
  using alex_dated_none alex_exec
  by (simp add: patterns_def) (simp add: android_iso_def ios_brackets_def android_short_def generic_def)

lemma unknown_not_empty: "str ''Unknown'' \<noteq> []"
  by (simp add: str_def)

definition abac :: jsstring where
  "abac = str ''A: one'' @ [10] @ str ''B: two'' @ [10] @ str ''A: three'' @ [10] @ str ''C: four''"

definition abac_result :: ParseResult where
  "abac_result = \<lparr>messages =
      [\<lparr>date = str ''Unknown'', time = [], sender = str ''A'', content = JStr (str ''one'')\<rparr>,
       \<lparr>date = str ''Unknown'', time = [], sender = str ''B'', content = JStr (str ''two'')\<rparr>,
       \<lparr>date = str ''Unknown'', time = [], sender = str ''A'', content = JStr (str ''three'')\<rparr>,
       \<lparr>date = str ''Unknown'', time = [], sender = str ''C'', content = JStr (str ''four'')\<rparr>],
     participants = [str ''A'', str ''B'', str ''C'']\<rparr>"

lemma abac_parse: "parseChat h abac = Inr abac_result"
proof -
  have "parseChat h abac = parseLines abac"
    by (rule parseChat_plain) (simp_all add: abac_def abac_result_def str_defs starts_with_def)
  also have "\<dots> = Inr abac_result"
    by (simp add: abac_def abac_result_def rx_defs pat_defs str_defs match_defs line_defs)
  finally show ?thesis .
qed

subsection \<open>Lines with a late first colon\<close>

definition long_sentence :: jsstring where
  "long_sentence = str ''This is a long sentence that happens to contain a colon: and continues past thirty one characters''"

lemma long_sentence_parse: "parseChat h long_sentence = Inr \<lparr>messages = [], participants = []\<rparr>"
proof -
  have "parseChat h long_sentence = parseLines long_sentence"
    by (rule parseChat_plain) (simp_all add: long_sentence_def str_defs starts_with_def)
  also have "\<dots> = Inr \<lparr>messages = [], participants = []\<rparr>"
    by (simp add: long_sentence_def rx_defs pat_defs str_defs match_defs line_defs)
  finally show ?thesis .
qed

definition spaced_line :: jsstring where
  "spaced_line = str ''2025-06-12,                         11:20 a.m. - Sam: hello''"

lemma long_sentence_clean: "cleanText (trim long_sentence) = long_sentence"
  by (simp add: long_sentence_def str_defs)

lemma long_sentence_prefix: "length (takeWhile (\<lambda>c. c \<noteq> 58) long_sentence) = 55"
  by (simp add: long_sentence_def str_def)

lemma long_sentence_dated_none:
  "regexp_exec True (p_regex android_iso) long_sentence = None"
  "regexp_exec True (p_regex ios_brackets) long_sentence = None"
  "regexp_exec True (p_regex android_short) long_sentence = None"
  by (simp_all add: long_sentence_def pat_defs rx_defs str_defs match_defs)

lemma spaced_line_clean: "cleanText (trim spaced_line) = spaced_line"
  by (simp add: spaced_line_def str_defs)

lemma spaced_line_prefix: "length (takeWhile (\<lambda>c. c \<noteq> 58) spaced_line) = 38"
  by (simp add: spaced_line_def str_def)

lemma spaced_line_parse:
  "parseChat h spaced_line =
     Inr \<lparr>messages = [\<lparr>date = str ''2025-06-12'', time = str ''11:20 a.m.'', sender = str ''Sam'',
                          content = JStr (str ''hello'')\<rparr>],
          participants = [str ''Sam'']\<rparr>"
proof -
  have "parseChat h spaced_line = parseLines spaced_line"
    by (rule parseChat_plain) (simp_all add: spaced_line_def str_defs starts_with_def)
  also have "\<dots> = Inr \<lparr>messages = [\<lparr>date = str ''2025-06-12'', time = str ''11:20 a.m.'', sender = str ''Sam'',
                          content = JStr (str ''hello'')\<rparr>],
          participants = [str ''Sam'']\<rparr>"
    by (simp add: spaced_line_def rx_defs pat_defs str_defs match_defs line_defs)
  finally show ?thesis .
qed

lemma no_header_step:
  assumes "cleanText (trim line) \<noteq> []" and "first_match patterns (cleanText (trim line)) = None"
  shows "line_step st line =
     Inr (case currentMessage st of
            None \<Rightarrow> st
          | Some m \<Rightarrow> st\<lparr>currentMessage := Some (m\<lparr>content := content m @ 10 # cleanText (trim line)\<rparr>)\<rparr>)"
  using assms by (simp add: line_step_def Let_def split: option.splits)

lemma long_prefix_step:
  assumes p: "31 < length (takeWhile (\<lambda>c. c \<noteq> 58) (cleanText (trim line)))"
    and d: "regexp_exec True (p_regex android_iso) (cleanText (trim line)) = None"
    "regexp_exec True (p_regex ios_brackets) (cleanText (trim line)) = None"
    "regexp_exec True (p_regex android_short) (cleanText (trim line)) = None"
  shows "line_step st line =
     Inr (case currentMessage st of
            None \<Rightarrow> st
          | Some m \<Rightarrow> st\<lparr>currentMessage := Some (m\<lparr>content := content m @ 10 # cleanText (trim line)\<rparr>)\<rparr>)"
proof -
  from p have ne: "cleanText (trim line) \<noteq> []" by auto
  have "first_match patterns (cleanText (trim line)) = None"
    using d generic_long_prefix[OF p]
    by (simp add: patterns_def) (simp add: android_iso_def ios_brackets_def android_short_def generic_def)
  with ne show ?thesis by (rule no_header_step)
qed

section \<open>The content of a generic-pattern header line\<close>

text \<open>
  The first state of a sequence is the first state that its second part reaches from the
  states of its first part, in order.
\<close>

lemma run_le: "run p s i \<le> length s - i"
  unfolding run_def using length_takeWhile_le[of p "drop i s"] by simp

lemma run_all: "j < run p s i \<Longrightarrow> p (s ! (i + j))"
proof -
  assume j: "j < run p s i"
  then have jt: "j < length (takeWhile p (drop i s))" by (simp add: run_def)
  then have "takeWhile p (drop i s) ! j \<in> set (takeWhile p (drop i s))" by (rule nth_mem)
  then have "p (takeWhile p (drop i s) ! j)" by (rule set_takeWhileD[THEN conjunct2])
  moreover have "takeWhile p (drop i s) ! j = drop i s ! j" by (rule takeWhile_nth[OF jt])
  moreover have "i + j < length s" using j run_le[of p s i] by simp
  ultimately show ?thesis by simp
qed

lemma run_stop: "i + run p s i < length s \<Longrightarrow> \<not> p (s ! (i + run p s i))"
proof -
  assume a: "i + run p s i < length s"
  then have "length (takeWhile p (drop i s)) < length (drop i s)" by (simp add: run_def)
  from nth_length_takeWhile[OF this] a show ?thesis by (simp add: run_def)
qed

lemma hd_concat_map:
  "concat (map f zs) \<noteq> [] \<Longrightarrow> (\<And>z. z \<in> set zs \<Longrightarrow> f z \<noteq> [] \<Longrightarrow> Q (hd (f z))) \<Longrightarrow>
   Q (hd (concat (map f zs)))"
proof (induction zs)
  case Nil
  then show ?case by simp
next
  case (Cons z zs)
  show ?case
  proof (cases "f z = []")
    case True
    with Cons show ?thesis by simp
  next
    case False
    with Cons.prems(2)[of z] show ?thesis by simp
  qed
qed

lemma hd_Cat:
  assumes "rmatch ic s (Cat r1 r2) a \<noteq> []"
    and "\<And>z. rmatch ic s r2 z \<noteq> [] \<Longrightarrow> Q (hd (rmatch ic s r2 z))"
  shows "Q (hd (rmatch ic s (Cat r1 r2) a))"
  using assms by (simp add: hd_concat_map)

definition has_text :: "mstate \<Rightarrow> bool" where
  "has_text m = (\<exists>c. cap m 2 = Some c \<and> c \<noteq> [] \<and> \<not> is_space (hd c))"

lemma is_space_cls: "(list_ex (\<lambda>i. citem_match ic i c) [CSpace] \<noteq> False) = is_space c"
  by simp

lemma generic_tail:
  assumes ne: "l \<noteq> []" and tr: "\<not> is_space (last l)"
    and m: "rmatch False l (Cat (Rep 1 None (Cls False [CSpace])) (Cat (Grp 2 (Rep 1 None Dot)) Eps)) z \<noteq> []"
  shows "has_text (hd (rmatch False l (Cat (Rep 1 None (Cls False [CSpace])) (Cat (Grp 2 (Rep 1 None Dot)) Eps)) z))"
proof -
  let ?i = "endIndex z"
  define rw where "rw = run is_space l ?i"
  define q where "q = ?i + rw"
  define w0 where "w0 = z\<lparr>endIndex := q\<rparr>"
  define F where "F = (\<lambda>y. rmatch False l (Cat (Grp 2 (Rep 1 None Dot)) Eps) y)"
  have pws: "rmatch False l (Rep 1 None (Cls False [CSpace])) z =
      map (\<lambda>k. z\<lparr>endIndex := ?i + k\<rparr>) (rev [1 ..< Suc rw])"
    by (simp add: rep_cls rep_ok_def bound_def rw_def)
  have rw1: "1 \<le> rw"
  proof (rule ccontr)
    assume "\<not> 1 \<le> rw"
    then have "rw = 0" by simp
    with pws have "rmatch False l (Rep 1 None (Cls False [CSpace])) z = []" by simp
    with m show False by simp
  qed
  then have "[1 ..< Suc rw] = [1 ..< rw] @ [rw]" by simp
  with pws have pws': "rmatch False l (Rep 1 None (Cls False [CSpace])) z =
      w0 # map (\<lambda>k. z\<lparr>endIndex := ?i + k\<rparr>) (rev [1 ..< rw])"
    by (simp add: w0_def q_def)
  have qle: "q \<le> length l" using run_le[of is_space l ?i] rw1 by (simp add: q_def rw_def)
  have qlt: "q < length l"
  proof (rule ccontr)
    assume "\<not> q < length l"
    with qle have ql: "q = length l" by simp
    have "rw - 1 < run is_space l ?i" using rw1 by (simp add: rw_def)
    from run_all[OF this] have "is_space (l ! (?i + (rw - 1)))" .
    moreover have "?i + (rw - 1) = length l - 1" using ql rw1 by (simp add: q_def)
    ultimately have "is_space (last l)" using ne by (simp add: last_conv_nth)
    with tr show False by simp
  qed
  have nsp: "\<not> is_space (l ! q)"
    using run_stop[of ?i is_space l] qlt by (simp add: q_def rw_def)
  then have nlt: "\<not> is_line_terminator (l ! q)" by (simp add: is_space_def)
  define rd where "rd = run (\<lambda>c. \<not> is_line_terminator c) l q"
  have rd1: "1 \<le> rd"
    unfolding rd_def using qlt nlt by (subst run_unfold) simp
  have pd: "rmatch False l (Rep 1 None Dot) w0 = map (\<lambda>k. w0\<lparr>endIndex := q + k\<rparr>) (rev [1 ..< Suc rd])"
    by (simp add: rep_dot rep_ok_def bound_def rd_def w0_def)
  from rd1 have "[1 ..< Suc rd] = [1 ..< rd] @ [rd]" by simp
  with pd have pd': "rmatch False l (Rep 1 None Dot) w0 =
      w0\<lparr>endIndex := q + rd\<rparr> # map (\<lambda>k. w0\<lparr>endIndex := q + k\<rparr>) (rev [1 ..< rd])"
    by simp
  have Fw: "F w0 = map (\<lambda>y. y\<lparr>captures := (2, substring l q (endIndex y)) # captures y\<rparr>)
      (rmatch False l (Rep 1 None Dot) w0)"
    by (simp add: F_def w0_def o_def)
  then have Fne: "F w0 \<noteq> []" using pd' by simp
  have "hd (F w0) = w0\<lparr>endIndex := q + rd, captures := (2, substring l q (q + rd)) # captures w0\<rparr>"
    using Fw pd' by simp
  then have c: "cap (hd (F w0)) 2 = Some (substring l q (q + rd))" by (simp add: cap_def)
  have sub: "substring l q (q + rd) = l ! q # take (rd - 1) (drop (Suc q) l)"
    using qlt rd1 by (cases rd) (simp_all add: substring_def Cons_nth_drop_Suc[symmetric])
  from c sub nsp have ht: "has_text (hd (F w0))" by (simp add: has_text_def)
  have "rmatch False l (Cat (Rep 1 None (Cls False [CSpace])) (Cat (Grp 2 (Rep 1 None Dot)) Eps)) z =
      concat (map F (rmatch False l (Rep 1 None (Cls False [CSpace])) z))"
    unfolding F_def by (rule rmatch.simps(8))
  also have "\<dots> = concat (map F (w0 # map (\<lambda>k. z\<lparr>endIndex := ?i + k\<rparr>) (rev [1 ..< rw])))"
    by (simp only: pws')
  also have "\<dots> = F w0 @ concat (map F (map (\<lambda>k. z\<lparr>endIndex := ?i + k\<rparr>) (rev [1 ..< rw])))"
    by (simp only: list.map concat.simps)
  finally have "hd (rmatch False l (Cat (Rep 1 None (Cls False [CSpace])) (Cat (Grp 2 (Rep 1 None Dot)) Eps)) z)
      = hd (F w0)"
    using Fne hd_append2[of "F w0"] by metis
  with ht show ?thesis by (simp only:)
qed

lemma generic_first_result:
  assumes ne: "l \<noteq> []" and tr: "\<not> is_space (last l)"
    and g: "regexp_exec False (p_regex generic) l = Some (i, m)"
  shows "has_text m"
proof -
  from g have "exec_at False (p_regex generic) l 0 (Suc (length l)) = Some (i, m)"
    by (simp only: regexp_exec_def)
  from exec_at_Some[OF this]
  have n: "rmatch False l (p_regex generic) \<lparr>endIndex = i, captures = []\<rparr> \<noteq> []"
    and m: "m = hd (rmatch False l (p_regex generic) \<lparr>endIndex = i, captures = []\<rparr>)"
    by blast+
  define T where "T = Cat (Rep 1 None (Cls False [CSpace])) (Cat (Grp 2 (Rep 1 None Dot)) Eps)"
  define G1 where "G1 = Grp 1 (Cat (Cls True [CSpace, CChar 58]) (Cat (Rep 0 (Some 30) (Cls True [CChar 58])) Eps))"
  have gr: "p_regex generic = Cat Bol (Cat G1 (Cat (Lit 58) T))"
    by (simp add: generic_regex T_def G1_def)
  have t0: "has_text (hd (rmatch False l T z))" if "rmatch False l T z \<noteq> []" for z
    using generic_tail[OF ne tr] that unfolding T_def by blast
  have t1: "has_text (hd (rmatch False l (Cat (Lit 58) T) z))"
    if "rmatch False l (Cat (Lit 58) T) z \<noteq> []" for z
    by (rule hd_Cat[where Q = has_text, OF that t0])
  have t2: "has_text (hd (rmatch False l (Cat G1 (Cat (Lit 58) T)) z))"
    if "rmatch False l (Cat G1 (Cat (Lit 58) T)) z \<noteq> []" for z
    by (rule hd_Cat[where Q = has_text, OF that t1])
  have t3: "has_text (hd (rmatch False l (Cat Bol (Cat G1 (Cat (Lit 58) T))) z))"
    if "rmatch False l (Cat Bol (Cat G1 (Cat (Lit 58) T))) z \<noteq> []" for z
    by (rule hd_Cat[where Q = has_text, OF that t2])
  from t3[OF n[unfolded gr]] show ?thesis unfolding m gr .
qed

lemma trim_last: "trim s \<noteq> [] \<Longrightarrow> \<not> is_space (last (trim s))"
proof -
  assume a: "trim s \<noteq> []"
  define d where "d = dropWhile is_space (rev (dropWhile is_space s))"
  from a have dn: "d \<noteq> []" by (simp add: trim_def d_def)
  then have "\<not> is_space (hd d)" unfolding d_def by (rule hd_dropWhile)
  moreover have "last (trim s) = hd d" using dn by (simp add: trim_def d_def last_rev)
  ultimately show ?thesis by simp
qed

lemma clean_last:
  assumes "cleanText (trim s) \<noteq> []"
  shows "\<not> is_space (last (cleanText (trim s)))"
proof -
  from assms have n: "trim s \<noteq> []" by (auto simp: cleanText_def)
  from trim_last[OF n] have ns: "\<not> is_space (last (trim s))" .
  then have "last (trim s) \<noteq> 8239" "last (trim s) \<noteq> 160" by (auto simp: is_space_def)
  then have "last (cleanText (trim s)) = last (trim s)"
    using n by (simp add: cleanText_def last_map)
  with ns show ?thesis by simp
qed

lemma trim_not_empty: "c \<noteq> [] \<Longrightarrow> \<not> is_space (hd c) \<Longrightarrow> trim c \<noteq> []"
proof -
  assume c: "c \<noteq> []" and h: "\<not> is_space (hd c)"
  then have d: "dropWhile is_space c = c" by (cases c) simp_all
  have "hd c \<in> set (rev c)" using c by simp
  with h have "dropWhile is_space (rev c) \<noteq> []" by (auto simp: dropWhile_eq_Nil_conv)
  with d show ?thesis by (simp add: trim_def)
qed

lemma generic_content_not_empty:
  assumes "cleanText (trim line) \<noteq> []"
    and "regexp_exec False (p_regex generic) (cleanText (trim line)) = Some (i, m)"
  shows "\<exists>c. cap m 2 = Some c \<and> trim c \<noteq> []"
proof -
  from generic_first_result[OF assms(1) clean_last[OF assms(1)] assms(2)]
  obtain c where c: "cap m 2 = Some c" "c \<noteq> []" "\<not> is_space (hd c)"
    by (auto simp: has_text_def)
  from trim_not_empty[OF c(2) c(3)] c(1) show ?thesis by blast
qed

text \<open>No date-bearing pattern matches the line.\<close>

definition undated :: "jsstring \<Rightarrow> bool" where
  "undated line =
     (regexp_exec True (p_regex android_iso) (cleanText (trim line)) = None \<and>
      regexp_exec True (p_regex ios_brackets) (cleanText (trim line)) = None \<and>
      regexp_exec True (p_regex android_short) (cleanText (trim line)) = None)"

definition content_inv :: "lstate \<Rightarrow> bool" where
  "content_inv st = list_all (\<lambda>msg. content msg \<noteq> []) (push_current st)"

lemma undated_generic_step:
  assumes u: "undated line"
    and g: "regexp_exec False (p_regex generic) (cleanText (trim line)) = Some (i, m)"
  shows "\<exists>st' msg. line_step st line = Inr st' \<and> l_messages st' = push_current st
     \<and> currentMessage st' = Some msg \<and> content msg \<noteq> []"
proof -
  from u have d: "regexp_exec True (p_regex android_iso) (cleanText (trim line)) = None"
    "regexp_exec True (p_regex ios_brackets) (cleanText (trim line)) = None"
    "regexp_exec True (p_regex android_short) (cleanText (trim line)) = None"
    by (simp_all add: undated_def)
  have ne: "cleanText (trim line) \<noteq> []"
  proof
    assume "cleanText (trim line) = []"
    with g show False by (simp add: generic_def rx_defs match_defs)
  qed
  from generic_header_step[OF d g, of st] obtain s c where sc: "cap m 1 = Some s" "cap m 2 = Some c"
    and st: "line_step st line =
       Inr \<lparr>l_messages = push_current st, l_participants = set_add (l_participants st) (trim s),
            currentMessage = Some \<lparr>date = str ''Unknown'', time = [], sender = trim s, content = trim c\<rparr>\<rparr>"
    by blast
  from generic_content_not_empty[OF ne g] sc have "trim c \<noteq> []" by simp
  with st show ?thesis by simp
qed

lemma undated_step_inv:
  assumes u: "undated line" and s: "line_step st line = Inr st'" and inv: "content_inv st"
  shows "content_inv st'"
proof (cases "regexp_exec False (p_regex generic) (cleanText (trim line))")
  case None
  with u have fm: "first_match patterns (cleanText (trim line)) = None"
    by (simp add: undated_def patterns_def) (simp add: android_iso_def ios_brackets_def android_short_def generic_def)
  with s inv show ?thesis
    by (auto simp: line_step_def Let_def content_inv_def push_current_def split: if_splits option.splits)
next
  case (Some im)
  obtain i m where "im = (i, m)" by (cases im)
  with Some have g: "regexp_exec False (p_regex generic) (cleanText (trim line)) = Some (i, m)" by simp
  from undated_generic_step[OF u g, of st] s obtain msg where
    "l_messages st' = push_current st" "currentMessage st' = Some msg" "content msg \<noteq> []"
    by auto
  with inv show ?thesis by (simp add: content_inv_def push_current_def)
qed

lemma undated_forEach_inv:
  "list_all undated ls \<Longrightarrow> forEach_lines st ls = Inr st' \<Longrightarrow> content_inv st \<Longrightarrow> content_inv st'"
proof (induction ls arbitrary: st)
  case Nil
  then show ?case by simp
next
  case (Cons l ls)
  from Cons.prems(2) obtain st1 where s1: "line_step st l = Inr st1"
    and r: "forEach_lines st1 ls = Inr st'"
    by (auto split: sum.splits)
  from Cons.prems(1) have u: "undated l" and us: "list_all undated ls" by simp_all
  from Cons.IH[OF us r undated_step_inv[OF u s1 Cons.prems(3)]] show ?case .
qed

lemma undated_parseLines:
  assumes "list_all undated (split_nl rawText)" and "parseLines rawText = Inr r"
  shows "list_all (\<lambda>msg. \<exists>c. content msg = JStr c \<and> c \<noteq> []) (messages r)"
proof -
  from assms(2) obtain st where fe: "forEach_lines \<lparr>l_messages = [], l_participants = [], currentMessage = None\<rparr> (split_nl rawText) = Inr st"
    and r: "r = \<lparr>messages = map as_value (push_current st), participants = l_participants st\<rparr>"
    by (auto simp: parseLines_def split: sum.splits)
  have "content_inv \<lparr>l_messages = [], l_participants = [], currentMessage = None\<rparr>"
    by (simp add: content_inv_def push_current_def)
  from undated_forEach_inv[OF assms(1) fe this] have "list_all (\<lambda>msg. content msg \<noteq> []) (push_current st)"
    by (simp add: content_inv_def)
  then show ?thesis unfolding r by (induction "push_current st") (simp_all add: list_all_iff as_value_def)
qed

definition sam_empty :: jsstring where
  "sam_empty = str ''2025-06-12, 11:20 a.m. - Sam:''"

definition sam_empty_match :: mstate where
  "sam_empty_match = \<lparr>endIndex = 29, captures = [(5, []), (4, str ''Sam''), (3, str ''a.m.''),
     (2, str ''11:20''), (1, str ''2025-06-12'')]\<rparr>"

lemma sam_empty_exec: "regexp_exec True (p_regex android_iso) sam_empty = Some (0, sam_empty_match)"
  by (simp add: sam_empty_def sam_empty_match_def android_iso_def rx_defs str_defs match_defs)

lemma sam_empty_parse:
  "parseChat h sam_empty =
     Inr \<lparr>messages = [\<lparr>date = str ''2025-06-12'', time = str ''11:20 a.m.'', sender = str ''Sam'',
                          content = JStr []\<rparr>],
          participants = [str ''Sam'']\<rparr>"
proof -
  have "parseChat h sam_empty = parseLines sam_empty"
    by (rule parseChat_plain) (simp_all add: sam_empty_def str_defs starts_with_def)
  also have "\<dots> = Inr \<lparr>messages = [\<lparr>date = str ''2025-06-12'', time = str ''11:20 a.m.'', sender = str ''Sam'',
                          content = JStr []\<rparr>],
          participants = [str ''Sam'']\<rparr>"
    by (simp add: sam_empty_def rx_defs pat_defs str_defs match_defs line_defs)
  finally show ?thesis .
qed

definition alex_two :: jsstring where
  "alex_two = str ''Alex: first line'' @ [10] @ str ''second line''"

lemma alex_two_split: "split_nl alex_two = [alex_line, str ''second line'']"
  by (simp add: alex_two_def alex_line_def str_def)

lemma alex_line_undated: "undated alex_line"
  using alex_dated_none by (simp add: undated_def alex_line_clean)

lemma second_line_undated: "undated (str ''second line'')"
  unfolding undated_def second_line_clean
  by (simp add: pat_defs rx_defs str_defs match_defs)

lemma alex_two_parseLines:
  "parseLines alex_two =
     Inr \<lparr>messages = [\<lparr>date = str ''Unknown'', time = [], sender = str ''Alex'',
                          content = JStr (str ''first line'' @ [10] @ str ''second line'')\<rparr>],
          participants = [str ''Alex'']\<rparr>"
  by (simp add: alex_two_def rx_defs pat_defs str_defs match_defs line_defs)

section \<open>The mojibake repair on strings\<close>

text \<open>
  The code units of a text, read as bytes, are well-formed UTF-8: a sequence of ASCII
  bytes and of well-formed multi-byte encodings of code points.
\<close>

function utf8_wf :: "nat list \<Rightarrow> bool" where
  "utf8_wf [] = True"
| "utf8_wf (b # bs) =
     (if b < 128 then utf8_wf bs
      else 2 \<le> leading_ones b \<and> leading_ones b \<le> 4 \<and> leading_ones b - 1 \<le> length bs
           \<and> utf8_code_point (b # take (leading_ones b - 1) bs) \<noteq> None
           \<and> utf8_wf (drop (leading_ones b - 1) bs))"
  by pat_completeness auto
termination
  by (relation "measure length") simp_all

text \<open>
  A text that is already correct: the UTF-16 form of a sequence of Unicode scalar
  values, with every surrogate in a pair.
\<close>

fun well_formed_utf16 :: "jsstring \<Rightarrow> bool" where
  "well_formed_utf16 [] = True"
| "well_formed_utf16 (c # cs) =
     (if c < 55296 \<or> (57344 \<le> c \<and> c < 65536) then well_formed_utf16 cs
      else if 55296 \<le> c \<and> c < 56320 then
        (case cs of [] \<Rightarrow> False | d # ds \<Rightarrow> 56320 \<le> d \<and> d < 57344 \<and> well_formed_utf16 ds)
      else False)"

lemma hex_roundtrip: "d < 16 \<Longrightarrow> hex_val (hex_digit d) = Some d"
  by (auto simp: hex_val_def hex_digit_def)

lemma escape_Cons: "escape (c # cs) = escape1 c @ escape cs"
  by (simp add: escape_def)

lemma unescaped_small: "is_unescaped c \<Longrightarrow> c < 128 \<and> c \<noteq> 37"
  by (auto simp: is_unescaped_def)

lemma octet_escape1:
  "octet (escape1 c @ rest) = (if c < 256 \<and> \<not> is_unescaped c then Some (c, rest) else None)"
proof (cases "is_unescaped c")
  case True
  then have e: "escape1 c = [c]" and n: "c \<noteq> 37" using unescaped_small[of c] by (simp_all add: escape1_def)
  have "octet (c # rest) = None" using n by (cases "(c # rest)" rule: octet.cases) auto
  with True e show ?thesis by simp
next
  case False
  show ?thesis
  proof (cases "c < 256")
    case True
    then have "c div 16 < 16" "c mod 16 < 16" by simp_all
    then have "hex_val (hex_digit (c div 16)) = Some (c div 16)" "hex_val (hex_digit (c mod 16)) = Some (c mod 16)"
      by (simp_all add: hex_roundtrip)
    with True False show ?thesis by (simp add: escape1_def)
  next
    case False
    have "hex_val 117 = None" by (simp add: hex_val_def)
    with False \<open>\<not> is_unescaped c\<close> show ?thesis by (simp add: escape1_def)
  qed
qed

lemma octets_escape:
  "octets k (escape bs) = Some (cs, rest) \<Longrightarrow>
     k \<le> length bs \<and> cs = take k bs \<and> rest = escape (drop k bs) \<and> (\<forall>c\<in>set cs. c < 256)"
proof (induction k arbitrary: bs cs rest)
  case 0
  then show ?case by simp
next
  case (Suc k)
  show ?case
  proof (cases bs)
    case Nil
    with Suc.prems show ?thesis by (simp add: escape_def)
  next
    case (Cons b bs')
    from Suc.prems Cons obtain cs' where b: "b < 256" and
      o: "octets k (escape bs') = Some (cs', rest)" and cs: "cs = b # cs'"
      by (auto simp: escape_Cons octet_escape1 split: if_splits option.splits)
    from Suc.IH[OF o] b cs Cons show ?thesis by simp
  qed
qed

lemma decode_escape_ascii:
  assumes "c < 128"
  shows "decode (escape1 c @ rest) = (case decode rest of Inl e \<Rightarrow> Inl e | Inr r \<Rightarrow> Inr (c # r))"
proof (cases "is_unescaped c")
  case True
  then have "escape1 c = [c]" "c \<noteq> 37" using unescaped_small[of c] by (simp_all add: escape1_def)
  then show ?thesis by simp
next
  case False
  with assms have e: "escape1 c @ rest = 37 # (hex_digit (c div 16) # hex_digit (c mod 16) # rest)"
    by (simp add: escape1_def)
  from False assms have o: "octet (37 # (hex_digit (c div 16) # hex_digit (c mod 16) # rest)) = Some (c, rest)"
    using octet_escape1[of c rest] e by simp
  from assms have l: "leading_ones c = 0" by (simp add: leading_ones_def)
  show ?thesis unfolding e by (subst decode.simps(2)) (simp add: o l del: octet.simps)
qed

lemma decode_escape_high:
  assumes "128 \<le> c"
  shows "decode (escape1 c @ rest) =
     (if 256 \<le> c \<or> leading_ones c = 1 \<or> leading_ones c > 4 then Inl URIError
      else
        case octets (leading_ones c - 1) rest of
          None \<Rightarrow> Inl URIError
        | Some (bs, rest') \<Rightarrow>
            (case utf8_code_point (c # bs) of
               None \<Rightarrow> Inl URIError
             | Some v \<Rightarrow> (case decode rest' of Inl e \<Rightarrow> Inl e | Inr r \<Rightarrow> Inr (utf16_encode v @ r))))"
proof -
  from assms have nu: "\<not> is_unescaped c" using unescaped_small[of c] by auto
  then obtain t where e: "escape1 c @ rest = 37 # t" by (cases "c < 256") (auto simp: escape1_def)
  have o: "octet (37 # t) = (if c < 256 then Some (c, rest) else None)"
    using octet_escape1[of c rest] nu e by simp
  from assms have l: "leading_ones c \<noteq> 0" by (simp add: leading_ones_def)
  show ?thesis unfolding e
    by (subst decode.simps(2)) (simp add: o l Let_def del: octet.simps)
qed

lemma decode_escape_ok:
  "decode (escape t) = Inr r \<Longrightarrow> (\<forall>c\<in>set t. c < 256) \<and> utf8_wf t"
proof (induction t arbitrary: r rule: length_induct)
  case (1 t)
  have IH: "(\<forall>c\<in>set ys. c < 256) \<and> utf8_wf ys"
    if "length ys < length t" "decode (escape ys) = Inr x" for ys x
    using 1(1) that by blast
  show ?case
  proof (cases t)
    case Nil
    then show ?thesis by simp
  next
    case (Cons b bs)
    show ?thesis
    proof (cases "b < 128")
      case True
      from 1(2) Cons True obtain r' where d: "decode (escape bs) = Inr r'"
        by (auto simp: escape_Cons decode_escape_ascii split: sum.splits)
      have "length bs < length t" using Cons by simp
      from IH[OF this d] have "(\<forall>c\<in>set bs. c < 256) \<and> utf8_wf bs" .
      with True Cons show ?thesis by simp
    next
      case False
      then have h: "128 \<le> b" by simp
      from 1(2) Cons have dd: "decode (escape1 b @ escape bs) = Inr r" by (simp add: escape_Cons)
      from dd have b256: "b < 256" and n: "leading_ones b \<noteq> 1" "leading_ones b \<le> 4"
        by (auto simp: decode_escape_high[OF h] split: if_splits)
      from h have "leading_ones b \<noteq> 0" by (simp add: leading_ones_def)
      with n have n2: "2 \<le> leading_ones b" by simp
      from dd b256 n obtain cs rest' v r' where
        o: "octets (leading_ones b - 1) (escape bs) = Some (cs, rest')" and
        u: "utf8_code_point (b # cs) = Some v" and d: "decode rest' = Inr r'"
        by (auto simp: decode_escape_high[OF h] split: if_splits option.splits sum.splits)
      from octets_escape[OF o] have k: "leading_ones b - 1 \<le> length bs"
        and cs: "cs = take (leading_ones b - 1) bs" and rest: "rest' = escape (drop (leading_ones b - 1) bs)"
        and small: "\<forall>c\<in>set cs. c < 256"
        by simp_all
      have "length (drop (leading_ones b - 1) bs) < length t" using Cons by simp
      from IH[OF this d[unfolded rest]]
      have ih: "(\<forall>c\<in>set (drop (leading_ones b - 1) bs). c < 256) \<and> utf8_wf (drop (leading_ones b - 1) bs)" .
      have "set bs = set (take (leading_ones b - 1) bs) \<union> set (drop (leading_ones b - 1) bs)"
        by (metis append_take_drop_id set_append)
      with small cs ih have all: "\<forall>c\<in>set bs. c < 256" by auto
      from False n2 n k u cs ih have "utf8_wf (b # bs)" by simp
      with all b256 Cons show ?thesis by simp
    qed
  qed
qed

lemma decode_escape_ascii_all: "\<forall>c\<in>set t. c < 128 \<Longrightarrow> decode (escape t) = Inr t"
  by (induction t) (simp_all add: escape_Cons decode_escape_ascii, simp add: escape_def)

lemma fixMojibake_string:
  "fixMojibake h (JStr t) = (case decode (escape t) of Inl e \<Rightarrow> JStr t | Inr r \<Rightarrow> JStr r)"
  by (simp add: fixMojibake_def decodeURIComponent_def)

lemma fixMojibake_unchanged:
  assumes "(\<exists>c\<in>set t. 255 < c) \<or> \<not> utf8_wf t"
  shows "fixMojibake h (JStr t) = JStr t"
proof (cases "decode (escape t)")
  case (Inl e)
  then show ?thesis by (simp add: fixMojibake_string)
next
  case (Inr r)
  from decode_escape_ok[OF this] assms show ?thesis by auto
qed

lemma fixMojibake_ascii: "\<forall>c\<in>set t. c < 128 \<Longrightarrow> fixMojibake h (JStr t) = JStr t"
  by (simp add: fixMojibake_string decode_escape_ascii_all)

lemma mojibake_repaired: "fixMojibake h (JStr [195, 169]) = JStr [233]"
  by (simp add: fixMojibake_string escape_def escape1_def is_unescaped_def hex_digit_def hex_val_def
      leading_ones_def is_cont_def utf16_encode_def)

text \<open>
  The text that a sequence of bytes encodes in UTF-8, in UTF-16 code units. A byte
  that starts no well-formed sequence stands for itself; on well-formed bytes this
  case does not arise.
\<close>

function utf8_text :: "nat list \<Rightarrow> jsstring" where
  "utf8_text [] = []"
| "utf8_text (b # bs) =
     (if b < 128 then b # utf8_text bs
      else
        case utf8_code_point (b # take (leading_ones b - 1) bs) of
          None \<Rightarrow> b # utf8_text bs
        | Some v \<Rightarrow> utf16_encode v @ utf8_text (drop (leading_ones b - 1) bs))"
  by pat_completeness auto
termination
  by (relation "measure length") simp_all

lemma code_point_cont:
  assumes "utf8_code_point (b # cs) = Some v"
  shows "(\<forall>c\<in>set cs. is_cont c) \<and> length (utf16_encode v) \<le> length cs"
proof -
  from assms consider b1 where "cs = [b1]" | b1 b2 where "cs = [b1, b2]"
    | b1 b2 b3 where "cs = [b1, b2, b3]"
    by (cases "b # cs" rule: utf8_code_point.cases) auto
  then show ?thesis
  proof cases
    case 1
    with assms have c: "is_cont b1" and r: "194 \<le> b \<and> b \<le> 223" and v: "v = (b - 192) * 64 + (b1 - 128)"
      by (auto split: if_splits)
    from c r v have "v < 65536" unfolding is_cont_def by arith
    with c 1 show ?thesis by (simp add: utf16_encode_def)
  next
    case 2
    with assms have "is_cont b1" "is_cont b2" by (auto simp: is_cont_def split: if_splits)
    with 2 show ?thesis by (simp add: utf16_encode_def)
  next
    case 3
    with assms have "is_cont b1" "is_cont b2" "is_cont b3" by (auto simp: is_cont_def split: if_splits)
    with 3 show ?thesis by (simp add: utf16_encode_def)
  qed
qed

lemma cont_escaped: "is_cont c \<Longrightarrow> c < 256 \<and> \<not> is_unescaped c"
  using unescaped_small[of c] by (auto simp: is_cont_def)

lemma octets_escape_cont:
  "k \<le> length bs \<Longrightarrow> \<forall>c\<in>set (take k bs). is_cont c \<Longrightarrow>
   octets k (escape bs) = Some (take k bs, escape (drop k bs))"
proof (induction k arbitrary: bs)
  case 0
  then show ?case by simp
next
  case (Suc k)
  from Suc.prems(1) obtain a as where bs: "bs = a # as" by (cases bs) auto
  from Suc.prems bs have a: "is_cont a" and k: "k \<le> length as" and r: "\<forall>c\<in>set (take k as). is_cont c"
    by simp_all
  from cont_escaped[OF a] have o: "octet (escape1 a @ escape as) = Some (a, escape as)"
    by (simp add: octet_escape1)
  from Suc.IH[OF k r] o bs show ?case by (simp add: escape_Cons)
qed

lemma decode_escape_wf: "utf8_wf t \<Longrightarrow> decode (escape t) = Inr (utf8_text t)"
proof (induction t rule: length_induct)
  case (1 t)
  have IH: "decode (escape ys) = Inr (utf8_text ys)" if "length ys < length t" "utf8_wf ys" for ys
    using 1(1) that by blast
  show ?case
  proof (cases t)
    case Nil
    then show ?thesis by (simp add: escape_def)
  next
    case (Cons b bs)
    show ?thesis
    proof (cases "b < 128")
      case True
      from 1(2) Cons True have "utf8_wf bs" by simp
      from IH[OF _ this] Cons have "decode (escape bs) = Inr (utf8_text bs)" by simp
      with True Cons show ?thesis by (simp add: escape_Cons decode_escape_ascii)
    next
      case False
      then have h: "128 \<le> b" by simp
      from 1(2) Cons False have n: "2 \<le> leading_ones b" "leading_ones b \<le> 4"
        and k: "leading_ones b - 1 \<le> length bs"
        and u: "utf8_code_point (b # take (leading_ones b - 1) bs) \<noteq> None"
        and w: "utf8_wf (drop (leading_ones b - 1) bs)"
        by simp_all
      from u obtain v where v: "utf8_code_point (b # take (leading_ones b - 1) bs) = Some v" by auto
      from n have b256: "b < 256" by (simp add: leading_ones_def split: if_splits)
      from code_point_cont[OF v] have "\<forall>c\<in>set (take (leading_ones b - 1) bs). is_cont c" by simp
      from octets_escape_cont[OF k this]
      have o: "octets (leading_ones b - 1) (escape bs) =
          Some (take (leading_ones b - 1) bs, escape (drop (leading_ones b - 1) bs))" .
      have "length (drop (leading_ones b - 1) bs) < length t" using Cons by simp
      from IH[OF this w]
      have d: "decode (escape (drop (leading_ones b - 1) bs)) = Inr (utf8_text (drop (leading_ones b - 1) bs))" .
      from n b256 have c0: "\<not> (256 \<le> b \<or> leading_ones b = 1 \<or> leading_ones b > 4)" by simp
      have "decode (escape1 b @ escape bs) = Inr (utf16_encode v @ utf8_text (drop (leading_ones b - 1) bs))"
        by (simp only: decode_escape_high[OF h] c0 if_False o v d option.case prod.case sum.case)
      with False v Cons show ?thesis by (simp add: escape_Cons)
    qed
  qed
qed

lemma utf8_text_length:
  "utf8_wf t \<Longrightarrow>
   length (utf8_text t) \<le> length t \<and> ((\<exists>c\<in>set t. 128 \<le> c) \<longrightarrow> length (utf8_text t) < length t)"
proof (induction t rule: length_induct)
  case (1 t)
  have IH: "length (utf8_text ys) \<le> length ys \<and> ((\<exists>c\<in>set ys. 128 \<le> c) \<longrightarrow> length (utf8_text ys) < length ys)"
    if "length ys < length t" "utf8_wf ys" for ys
    using 1(1) that by blast
  show ?case
  proof (cases t)
    case Nil
    then show ?thesis by simp
  next
    case (Cons b bs)
    show ?thesis
    proof (cases "b < 128")
      case True
      from 1(2) Cons True have "utf8_wf bs" by simp
      from IH[OF _ this] Cons
      have "length (utf8_text bs) \<le> length bs \<and> ((\<exists>c\<in>set bs. 128 \<le> c) \<longrightarrow> length (utf8_text bs) < length bs)"
        by simp
      with True Cons show ?thesis by auto
    next
      case False
      from 1(2) Cons False have k: "leading_ones b - 1 \<le> length bs"
        and u: "utf8_code_point (b # take (leading_ones b - 1) bs) \<noteq> None"
        and w: "utf8_wf (drop (leading_ones b - 1) bs)"
        by simp_all
      from u obtain v where v: "utf8_code_point (b # take (leading_ones b - 1) bs) = Some v" by auto
      from code_point_cont[OF v] k have l: "length (utf16_encode v) \<le> leading_ones b - 1" by simp
      have "length (drop (leading_ones b - 1) bs) < length t" using Cons by simp
      from IH[OF this w]
      have "length (utf8_text (drop (leading_ones b - 1) bs)) \<le> length bs - (leading_ones b - 1)" by simp
      with l k have "length (utf16_encode v @ utf8_text (drop (leading_ones b - 1) bs)) \<le> length bs"
        by simp
      with False v Cons show ?thesis by simp
    qed
  qed
qed

lemma ascii_utf8_wf: "\<forall>c\<in>set t. c < 128 \<Longrightarrow> utf8_wf t"
  by (induction t) simp_all

lemma utf8_wf_bytes: "utf8_wf t \<Longrightarrow> \<forall>c\<in>set t. c < 256"
  using decode_escape_ok[OF decode_escape_wf] by blast

lemma fixMojibake_wf: "utf8_wf t \<Longrightarrow> fixMojibake h (JStr t) = JStr (utf8_text t)"
  by (simp add: fixMojibake_string decode_escape_wf)

lemma fixMojibake_changed:
  assumes "utf8_wf t" and "\<exists>c\<in>set t. 128 \<le> c"
  shows "fixMojibake h (JStr t) \<noteq> JStr t"
proof -
  from utf8_text_length[OF assms(1)] assms(2) have "length (utf8_text t) < length t" by blast
  then have "utf8_text t \<noteq> t" by auto
  with fixMojibake_wf[OF assms(1), of h] show ?thesis by simp
qed

lemma fixMojibake_same_iff:
  "fixMojibake h (JStr t) = JStr t \<longleftrightarrow> \<not> utf8_wf t \<or> (\<forall>c\<in>set t. c < 128)"
proof
  assume s: "fixMojibake h (JStr t) = JStr t"
  show "\<not> utf8_wf t \<or> (\<forall>c\<in>set t. c < 128)"
  proof (rule ccontr)
    assume "\<not> (\<not> utf8_wf t \<or> (\<forall>c\<in>set t. c < 128))"
    then have w: "utf8_wf t" and "\<exists>c\<in>set t. \<not> c < 128" by auto
    then have "\<exists>c\<in>set t. 128 \<le> c" by (auto simp: not_less)
    from fixMojibake_changed[OF w this, of h] s show False by simp
  qed
next
  assume "\<not> utf8_wf t \<or> (\<forall>c\<in>set t. c < 128)"
  then show "fixMojibake h (JStr t) = JStr t"
    using fixMojibake_unchanged[of t h] fixMojibake_ascii[of t h] by blast
qed

section \<open>One element of the structured data\<close>









subsection \<open>All the elements of the structured data\<close>



















section \<open>The claims\<close>

text \<open>
  C1. For every input string (and every host), \<open>parseChat\<close> returns a result and raises
  nothing: the model's value is never an error. In particular the input
  \<open>{not valid json\<close> makes \<open>JSON.parse\<close> throw a SyntaxError inside the fast path, which
  is caught, and the line-based parsing that follows finds no header:
  the result is \<open>{messages: [], participants: []}\<close>.
\<close>

theorem parseChat_never_raises:
  "(\<exists>r. parseChat h rawText = Inr r)
   \<and> fast_path h (str ''{not valid json'') = Inl SyntaxError
   \<and> parseChat h (str ''{not valid json'') = Inr \<lparr>messages = [], participants = []\<rparr>"
  using parseChat_total not_json_fast_path not_json_parse by blast

theorem parseChat_never_raises_witness:
  "(\<exists>r. parseChat plain_host (str ''{not valid json'') = Inr r)
   \<and> fast_path plain_host (str ''{not valid json'') = Inl SyntaxError
   \<and> parseChat plain_host (str ''{not valid json'') = Inr \<lparr>messages = [], participants = []\<rparr>"
  by (rule parseChat_never_raises)

text \<open>
  C3. The input \<open>[{"role":"user","content":"hi"},{"role":"assistant","content":"hello"}]\<close>
  is answered by the structured-data fast path (its \<open>return\<close> is reached, so the
  line-based parsing does not run): two messages with the senders \<open>User\<close> and
  \<open>Assistant\<close>, empty date and time, and the participants \<open>User\<close>, \<open>Assistant\<close> in
  this order.
\<close>

theorem json_fast_path_precedence:
  "fast_path h (str ''[{\"role\":\"user\",\"content\":\"hi\"},{\"role\":\"assistant\",\"content\":\"hello\"}]'') =
     Inr (Some \<lparr>messages = [\<lparr>date = [], time = [], sender = str ''User'', content = JStr (str ''hi'')\<rparr>,
                              \<lparr>date = [], time = [], sender = str ''Assistant'', content = JStr (str ''hello'')\<rparr>],
                 participants = [str ''User'', str ''Assistant'']\<rparr>)
   \<and> parseChat h (str ''[{\"role\":\"user\",\"content\":\"hi\"},{\"role\":\"assistant\",\"content\":\"hello\"}]'') =
     Inr \<lparr>messages = [\<lparr>date = [], time = [], sender = str ''User'', content = JStr (str ''hi'')\<rparr>,
                        \<lparr>date = [], time = [], sender = str ''Assistant'', content = JStr (str ''hello'')\<rparr>],
           participants = [str ''User'', str ''Assistant'']\<rparr>"
  by (simp only: parseChat_def two_roles_fast_path sum.case option.case simp_thms)

theorem json_fast_path_precedence_witness:
  "fast_path plain_host (str ''[{\"role\":\"user\",\"content\":\"hi\"},{\"role\":\"assistant\",\"content\":\"hello\"}]'') =
     Inr (Some \<lparr>messages = [\<lparr>date = [], time = [], sender = str ''User'', content = JStr (str ''hi'')\<rparr>,
                              \<lparr>date = [], time = [], sender = str ''Assistant'', content = JStr (str ''hello'')\<rparr>],
                 participants = [str ''User'', str ''Assistant'']\<rparr>)
   \<and> parseChat plain_host (str ''[{\"role\":\"user\",\"content\":\"hi\"},{\"role\":\"assistant\",\"content\":\"hello\"}]'') =
     Inr \<lparr>messages = [\<lparr>date = [], time = [], sender = str ''User'', content = JStr (str ''hi'')\<rparr>,
                        \<lparr>date = [], time = [], sender = str ''Assistant'', content = JStr (str ''hello'')\<rparr>],
           participants = [str ''User'', str ''Assistant'']\<rparr>"
  by (rule json_fast_path_precedence)

text \<open>
  C2. The patterns are tried in their fixed order and the first one that matches gives
  the extraction; later patterns are not tried. So a line that the regular expression
  of \<open>android_iso\<close> matches is always parsed by \<open>android_iso\<close>, whether or not a later
  pattern (such as \<open>generic\<close>) would match it too. The line
  \<open>2025-06-12, 11:20 a.m. - Sam: hello\<close> alone yields exactly one message with sender
  \<open>Sam\<close>, date \<open>2025-06-12\<close>, time \<open>11:20 a.m.\<close> and content \<open>hello\<close>.
\<close>

theorem format_precedence:
  "(regexp_exec True (p_regex android_iso) l = Some (i, m) \<longrightarrow>
      first_match patterns l = Some (p_parse android_iso m))
   \<and> ((\<forall>q\<in>set ps. regexp_exec (p_ignoreCase q) (p_regex q) l = None) \<and>
        regexp_exec (p_ignoreCase p) (p_regex p) l = Some (i, m) \<longrightarrow>
      first_match (ps @ p # qs) l = Some (p_parse p m))
   \<and> parseChat h (str ''2025-06-12, 11:20 a.m. - Sam: hello'') =
       Inr \<lparr>messages = [\<lparr>date = str ''2025-06-12'', time = str ''11:20 a.m.'', sender = str ''Sam'',
                            content = JStr (str ''hello'')\<rparr>],
            participants = [str ''Sam'']\<rparr>"
  using android_iso_first[of l i m] first_match_wins[of ps l p i m qs] sam_parse[of h]
  by (simp add: sam_line_def)

theorem format_precedence_witness:
  "regexp_exec True (p_regex android_iso) sam_line = Some (0, sam_match)
   \<and> first_match patterns sam_line = Some (p_parse android_iso sam_match)
   \<and> first_match ([] @ android_iso # [ios_brackets, android_short, generic]) sam_line =
       Some (p_parse android_iso sam_match)
   \<and> parseChat plain_host (str ''2025-06-12, 11:20 a.m. - Sam: hello'') =
       Inr \<lparr>messages = [\<lparr>date = str ''2025-06-12'', time = str ''11:20 a.m.'', sender = str ''Sam'',
                            content = JStr (str ''hello'')\<rparr>],
            participants = [str ''Sam'']\<rparr>"
  using format_precedence[of sam_line 0 sam_match "[]" android_iso "[ios_brackets, android_short, generic]" plain_host]
    sam_exec
  by (simp add: android_iso_def)

text \<open>
  C5. A non-blank line that matches no header pattern, following a matched header line,
  is appended to the content of the message of that header after a newline. A header
  line of any of the four patterns, in any state of the loop, leaves a message
  accumulating whose content is the trimmed capture, and the line after it is appended
  to that content. The same holds with other lines in between: after lines of which one
  is a header line a message is accumulating and the line is appended to it, and when
  the line is the last of the text that message is the last of the result. What is
  appended is the line as the parser cleaned it (trimmed, with the two no-break spaces
  normalized). The input \<open>Alex: first line\nsecond line\<close> yields exactly one
  message, with sender \<open>Alex\<close> and content \<open>first line\nsecond line\<close>.
\<close>

theorem continuation_merge:
  "(first_match patterns (cleanText (trim hl)) = Some e \<and> cleanText (trim l) \<noteq> [] \<and>
      first_match patterns (cleanText (trim l)) = None \<longrightarrow>
      (\<exists>s c. h_sender e = Some s \<and> h_content e = Some c \<and>
         forEach_lines st [hl, l] =
           Inr \<lparr>l_messages = push_current st, l_participants = set_add (l_participants st) (trim s),
                currentMessage = Some \<lparr>date = or_else (h_date e) (str ''Unknown''),
                                        time = or_else (h_time e) [], sender = trim s,
                                        content = trim c @ 10 # cleanText (trim l)\<rparr>\<rparr>))
   \<and> ((\<exists>a\<in>set ls. first_match patterns (cleanText (trim a)) \<noteq> None) \<and> cleanText (trim l) \<noteq> [] \<and>
      first_match patterns (cleanText (trim l)) = None \<longrightarrow>
      (\<exists>st' m. forEach_lines st ls = Inr st' \<and> currentMessage st' = Some m \<and>
         forEach_lines st (ls @ [l]) =
           Inr (st'\<lparr>currentMessage := Some (m\<lparr>content := content m @ 10 # cleanText (trim l)\<rparr>)\<rparr>)))
   \<and> (split_nl rawText = ls @ [l] \<and>
      (\<exists>a\<in>set ls. first_match patterns (cleanText (trim a)) \<noteq> None) \<and> cleanText (trim l) \<noteq> [] \<and>
      first_match patterns (cleanText (trim l)) = None \<longrightarrow>
      (\<exists>st' m. forEach_lines \<lparr>l_messages = [], l_participants = [], currentMessage = None\<rparr> ls = Inr st'
         \<and> currentMessage st' = Some m
         \<and> parseLines rawText =
             Inr \<lparr>messages = map as_value (l_messages st' @ [m\<lparr>content := content m @ 10 # cleanText (trim l)\<rparr>]),
                  participants = l_participants st'\<rparr>))
   \<and> parseChat h (str ''Alex: first line'' @ [10] @ str ''second line'') =
       Inr \<lparr>messages = [\<lparr>date = str ''Unknown'', time = [], sender = str ''Alex'',
                            content = JStr (str ''first line'' @ [10] @ str ''second line'')\<rparr>],
            participants = [str ''Alex'']\<rparr>"
proof (intro conjI impI)
  assume "first_match patterns (cleanText (trim hl)) = Some e \<and> cleanText (trim l) \<noteq> [] \<and>
      first_match patterns (cleanText (trim l)) = None"
  then show "\<exists>s c. h_sender e = Some s \<and> h_content e = Some c \<and>
         forEach_lines st [hl, l] =
           Inr \<lparr>l_messages = push_current st, l_participants = set_add (l_participants st) (trim s),
                currentMessage = Some \<lparr>date = or_else (h_date e) (str ''Unknown''),
                                        time = or_else (h_time e) [], sender = trim s,
                                        content = trim c @ 10 # cleanText (trim l)\<rparr>\<rparr>"
    using header_then_continuation[of hl e l st] by blast
next
  assume "(\<exists>a\<in>set ls. first_match patterns (cleanText (trim a)) \<noteq> None) \<and> cleanText (trim l) \<noteq> [] \<and>
      first_match patterns (cleanText (trim l)) = None"
  then show "\<exists>st' m. forEach_lines st ls = Inr st' \<and> currentMessage st' = Some m \<and>
         forEach_lines st (ls @ [l]) =
           Inr (st'\<lparr>currentMessage := Some (m\<lparr>content := content m @ 10 # cleanText (trim l)\<rparr>)\<rparr>)"
    using continuation_after_header[of ls l st] by blast
next
  assume "split_nl rawText = ls @ [l] \<and>
      (\<exists>a\<in>set ls. first_match patterns (cleanText (trim a)) \<noteq> None) \<and> cleanText (trim l) \<noteq> [] \<and>
      first_match patterns (cleanText (trim l)) = None"
  then show "\<exists>st' m. forEach_lines \<lparr>l_messages = [], l_participants = [], currentMessage = None\<rparr> ls = Inr st'
         \<and> currentMessage st' = Some m
         \<and> parseLines rawText =
             Inr \<lparr>messages = map as_value (l_messages st' @ [m\<lparr>content := content m @ 10 # cleanText (trim l)\<rparr>]),
                  participants = l_participants st'\<rparr>"
    using continuation_in_result[of rawText ls l] by blast
next
  show "parseChat h (str ''Alex: first line'' @ [10] @ str ''second line'') =
       Inr \<lparr>messages = [\<lparr>date = str ''Unknown'', time = [], sender = str ''Alex'',
                            content = JStr (str ''first line'' @ [10] @ str ''second line'')\<rparr>],
            participants = [str ''Alex'']\<rparr>"
    by (rule alex_two_lines)
qed

theorem continuation_merge_witness:
  "first_match patterns (cleanText (trim sam_line)) = Some (p_parse android_iso sam_match)
   \<and> cleanText (trim (str ''second line'')) \<noteq> []
   \<and> first_match patterns (cleanText (trim (str ''second line''))) = None
   \<and> split_nl sam_two = [sam_line] @ [str ''second line'']
   \<and> forEach_lines lstate0 [sam_line, str ''second line''] =
       Inr \<lparr>l_messages = [], l_participants = [str ''Sam''],
            currentMessage = Some \<lparr>date = str ''2025-06-12'', time = str ''11:20 a.m.'', sender = str ''Sam'',
                                    content = str ''hello'' @ 10 # str ''second line''\<rparr>\<rparr>
   \<and> parseLines sam_two =
       Inr \<lparr>messages = [\<lparr>date = str ''2025-06-12'', time = str ''11:20 a.m.'', sender = str ''Sam'',
                            content = JStr (str ''hello'' @ 10 # str ''second line'')\<rparr>],
            participants = [str ''Sam'']\<rparr>
   \<and> parseChat plain_host (str ''Alex: first line'' @ [10] @ str ''second line'') =
       Inr \<lparr>messages = [\<lparr>date = str ''Unknown'', time = [], sender = str ''Alex'',
                            content = JStr (str ''first line'' @ [10] @ str ''second line'')\<rparr>],
            participants = [str ''Alex'']\<rparr>"
proof -
  note cm = continuation_merge[of sam_line "p_parse android_iso sam_match" "str ''second line''" lstate0
      "[sam_line]" sam_two plain_host]
  have a: "first_match patterns (cleanText (trim sam_line)) = Some (p_parse android_iso sam_match)"
    by (simp only: sam_line_clean sam_first_match)
  have b: "cleanText (trim (str ''second line'')) \<noteq> []"
    by (simp add: second_line_clean) (simp add: str_def)
  have c: "first_match patterns (cleanText (trim (str ''second line''))) = None"
    by (simp only: second_line_clean second_line_none)
  have d: "\<exists>a\<in>set [sam_line]. first_match patterns (cleanText (trim a)) \<noteq> None"
    using a by simp
  from cm a b c obtain s c' where sc: "h_sender (p_parse android_iso sam_match) = Some s"
    "h_content (p_parse android_iso sam_match) = Some c'"
    and f: "forEach_lines lstate0 [sam_line, str ''second line''] =
           Inr \<lparr>l_messages = push_current lstate0, l_participants = set_add (l_participants lstate0) (trim s),
                currentMessage = Some \<lparr>date = or_else (h_date (p_parse android_iso sam_match)) (str ''Unknown''),
                                        time = or_else (h_time (p_parse android_iso sam_match)) [], sender = trim s,
                                        content = trim c' @ 10 # cleanText (trim (str ''second line''))\<rparr>\<rparr>"
    by blast
  from sc have s: "s = str ''Sam''" and c': "c' = str ''hello''"
    by (simp_all add: android_iso_def sam_match_def cap_def)
  have f': "forEach_lines lstate0 [sam_line, str ''second line''] =
       Inr \<lparr>l_messages = [], l_participants = [str ''Sam''],
            currentMessage = Some \<lparr>date = str ''2025-06-12'', time = str ''11:20 a.m.'', sender = str ''Sam'',
                                    content = str ''hello'' @ 10 # str ''second line''\<rparr>\<rparr>"
    unfolding f s c' second_line_clean
    by (simp add: android_iso_def sam_match_def cap_def lstate0_def push_current_def set_add_def
        or_else_def tmpl_def str_defs)
  from cm sam_two_split d b c obtain st' m where
    g: "forEach_lines \<lparr>l_messages = [], l_participants = [], currentMessage = None\<rparr> [sam_line] = Inr st'"
    and m: "currentMessage st' = Some m"
    and p: "parseLines sam_two =
             Inr \<lparr>messages = map as_value (l_messages st' @
                      [m\<lparr>content := content m @ 10 # cleanText (trim (str ''second line''))\<rparr>]),
                  participants = l_participants st'\<rparr>"
    by blast
  from header_step[OF a, of "\<lparr>l_messages = [], l_participants = [], currentMessage = None\<rparr>"] g
  have st': "st' = \<lparr>l_messages = [], l_participants = [str ''Sam''],
            currentMessage = Some \<lparr>date = str ''2025-06-12'', time = str ''11:20 a.m.'', sender = str ''Sam'',
                                    content = str ''hello''\<rparr>\<rparr>"
    by (simp add: android_iso_def sam_match_def cap_def push_current_def set_add_def
        or_else_def tmpl_def str_defs)
  from m st' have m': "m = \<lparr>date = str ''2025-06-12'', time = str ''11:20 a.m.'', sender = str ''Sam'',
                                    content = str ''hello''\<rparr>" by simp
  have p': "parseLines sam_two =
       Inr \<lparr>messages = [\<lparr>date = str ''2025-06-12'', time = str ''11:20 a.m.'', sender = str ''Sam'',
                            content = JStr (str ''hello'' @ 10 # str ''second line'')\<rparr>],
            participants = [str ''Sam'']\<rparr>"
    unfolding p st' m' second_line_clean by (simp add: as_value_def)
  from cm have e: "parseChat plain_host (str ''Alex: first line'' @ [10] @ str ''second line'') =
       Inr \<lparr>messages = [\<lparr>date = str ''Unknown'', time = [], sender = str ''Alex'',
                            content = JStr (str ''first line'' @ [10] @ str ''second line'')\<rparr>],
            participants = [str ''Alex'']\<rparr>"
    by blast
  from a b c sam_two_split f' p' e show ?thesis by blast
qed

text \<open>
  C6. For every input the participants are the distinct senders of the messages, with
  no duplicates, in the order in which they are first seen. For an input whose header
  lines carry the senders A, B, A, C the participants are exactly A, B, C.
\<close>

theorem participants_first_seen:
  "(parseChat h rawText = Inr r \<longrightarrow>
      participants r = first_seen (map sender (messages r)) \<and> distinct (participants r)
      \<and> set (participants r) = sender ` set (messages r))
   \<and> parseChat h abac = Inr abac_result
   \<and> map sender (messages abac_result) = [str ''A'', str ''B'', str ''A'', str ''C'']
   \<and> participants abac_result = [str ''A'', str ''B'', str ''C'']"
proof -
  have g: "parseChat h rawText = Inr r \<longrightarrow>
      participants r = first_seen (map sender (messages r)) \<and> distinct (participants r)
      \<and> set (participants r) = sender ` set (messages r)"
  proof (intro impI)
    assume "parseChat h rawText = Inr r"
    from parseChat_participants[OF this] show "participants r = first_seen (map sender (messages r))
      \<and> distinct (participants r) \<and> set (participants r) = sender ` set (messages r)"
      by (simp add: distinct_first_seen set_first_seen)
  qed
  have c1: "parseChat h abac = Inr abac_result" by (rule abac_parse)
  have c2: "map sender (messages abac_result) = [str ''A'', str ''B'', str ''A'', str ''C'']"
    by (simp add: abac_result_def)
  have c3: "participants abac_result = [str ''A'', str ''B'', str ''C'']"
    by (simp add: abac_result_def)
  from g c1 c2 c3 show ?thesis by (intro conjI)
qed

theorem participants_first_seen_witness:
  "parseChat plain_host abac = Inr abac_result
   \<and> participants abac_result = first_seen (map sender (messages abac_result))
   \<and> distinct (participants abac_result)
   \<and> set (participants abac_result) = sender ` set (messages abac_result)
   \<and> map sender (messages abac_result) = [str ''A'', str ''B'', str ''A'', str ''C'']
   \<and> participants abac_result = [str ''A'', str ''B'', str ''C'']"
  using participants_first_seen[of plain_host abac abac_result] by blast

text \<open>
  C8, as the code has it. The extractor of the generic pattern gives an empty date, and
  \<open>extracted.date || 'Unknown'\<close> stores the sentinel \<open>Unknown\<close>: a message started by
  a generic-pattern header line has the date \<open>Unknown\<close> (and the empty time). Every
  message of the structured-data fast path has the empty date and the empty time.
\<close>

theorem generic_date_unknown_json_date_empty:
  "(regexp_exec True (p_regex android_iso) (cleanText (trim line)) = None \<and>
    regexp_exec True (p_regex ios_brackets) (cleanText (trim line)) = None \<and>
    regexp_exec True (p_regex android_short) (cleanText (trim line)) = None \<and>
    regexp_exec False (p_regex generic) (cleanText (trim line)) = Some (i, m) \<longrightarrow>
      (\<exists>st' msg. line_step st line = Inr st' \<and> currentMessage st' = Some msg \<and>
         date msg = str ''Unknown'' \<and> time msg = []))
   \<and> (fast_path h rawText = Inr (Some r) \<longrightarrow>
        list_all (\<lambda>msg. date msg = [] \<and> time msg = []) (messages r))"
proof -
  have a: "\<exists>st' msg. line_step st line = Inr st' \<and> currentMessage st' = Some msg \<and>
         date msg = str ''Unknown'' \<and> time msg = []"
    if "regexp_exec True (p_regex android_iso) (cleanText (trim line)) = None"
      "regexp_exec True (p_regex ios_brackets) (cleanText (trim line)) = None"
      "regexp_exec True (p_regex android_short) (cleanText (trim line)) = None"
      "regexp_exec False (p_regex generic) (cleanText (trim line)) = Some (i, m)"
    using generic_header_step[OF that, of st] by auto
  have b: "list_all (\<lambda>msg. date msg = [] \<and> time msg = []) (messages r)"
    if "fast_path h rawText = Inr (Some r)"
    using fast_path_inv[OF that] by simp
  from a b show ?thesis by blast
qed

theorem generic_date_unknown_json_date_empty_witness:
  "regexp_exec True (p_regex android_iso) (cleanText (trim alex_line)) = None
   \<and> regexp_exec True (p_regex ios_brackets) (cleanText (trim alex_line)) = None
   \<and> regexp_exec True (p_regex android_short) (cleanText (trim alex_line)) = None
   \<and> regexp_exec False (p_regex generic) (cleanText (trim alex_line)) = Some (0, alex_match)
   \<and> (\<exists>st' msg. line_step \<lparr>l_messages = [], l_participants = [], currentMessage = None\<rparr> alex_line = Inr st'
        \<and> currentMessage st' = Some msg \<and> date msg = str ''Unknown'' \<and> time msg = [])
   \<and> list_all (\<lambda>msg. date msg = [] \<and> time msg = [])
        [\<lparr>date = [], time = [], sender = str ''User'', content = JStr (str ''hi'')\<rparr>,
         \<lparr>date = [], time = [], sender = str ''Assistant'', content = JStr (str ''hello'')\<rparr>]"
  using generic_date_unknown_json_date_empty[of alex_line 0 alex_match
      "\<lparr>l_messages = [], l_participants = [], currentMessage = None\<rparr>" plain_host
      "str ''[{\"role\":\"user\",\"content\":\"hi\"},{\"role\":\"assistant\",\"content\":\"hello\"}]''"
      "\<lparr>messages = [\<lparr>date = [], time = [], sender = str ''User'', content = JStr (str ''hi'')\<rparr>,
                            \<lparr>date = [], time = [], sender = str ''Assistant'', content = JStr (str ''hello'')\<rparr>],
               participants = [str ''User'', str ''Assistant'']\<rparr>"]
    alex_dated_none alex_exec two_roles_fast_path[of plain_host]
  by (simp add: alex_line_clean)

text \<open>
  C8 as the claim states it fails: the generic-pattern header line \<open>Alex: first line\<close>
  gives a message whose date is \<open>Unknown\<close>, not the empty string.
\<close>

theorem generic_date_counterexample:
  "first_match patterns alex_line = Some (p_parse generic alex_match)
   \<and> parseChat plain_host alex_line =
       Inr \<lparr>messages = [\<lparr>date = str ''Unknown'', time = [], sender = str ''Alex'',
                            content = JStr (str ''first line'')\<rparr>],
            participants = [str ''Alex'']\<rparr>
   \<and> str ''Unknown'' \<noteq> []"
  using alex_first_match alex_parse[of plain_host] unknown_not_empty by simp

text \<open>
  C4, as the code has it. A line whose prefix before its first colon is longer than 31
  characters is never matched by the generic pattern. When it matches none of the
  three date-bearing patterns either, it is not a header: it is dropped when no message
  is accumulating and appended as a continuation otherwise. The line
  \<open>This is a long sentence that happens to contain a colon: and continues past thirty one characters\<close>
  alone yields no message.
\<close>

theorem long_prefix_not_generic:
  "(31 < length (takeWhile (\<lambda>c. c \<noteq> 58) (cleanText (trim line))) \<longrightarrow>
      regexp_exec False (p_regex generic) (cleanText (trim line)) = None
      \<and> (regexp_exec True (p_regex android_iso) (cleanText (trim line)) = None \<and>
         regexp_exec True (p_regex ios_brackets) (cleanText (trim line)) = None \<and>
         regexp_exec True (p_regex android_short) (cleanText (trim line)) = None \<longrightarrow>
           line_step st line =
             Inr (case currentMessage st of
                    None \<Rightarrow> st
                  | Some m \<Rightarrow>
                      st\<lparr>currentMessage := Some (m\<lparr>content := content m @ 10 # cleanText (trim line)\<rparr>)\<rparr>)))
   \<and> parseChat h long_sentence = Inr \<lparr>messages = [], participants = []\<rparr>"
  using generic_long_prefix[of "cleanText (trim line)"] long_prefix_step[of line st]
    long_sentence_parse[of h]
  by blast

theorem long_prefix_not_generic_witness:
  "31 < length (takeWhile (\<lambda>c. c \<noteq> 58) (cleanText (trim long_sentence)))
   \<and> regexp_exec False (p_regex generic) (cleanText (trim long_sentence)) = None
   \<and> line_step \<lparr>l_messages = [], l_participants = [], currentMessage = None\<rparr> long_sentence =
       Inr \<lparr>l_messages = [], l_participants = [], currentMessage = None\<rparr>
   \<and> parseChat plain_host long_sentence = Inr \<lparr>messages = [], participants = []\<rparr>"
  using long_prefix_not_generic[of long_sentence
      "\<lparr>l_messages = [], l_participants = [], currentMessage = None\<rparr>" plain_host]
    long_sentence_dated_none
  by (simp add: long_sentence_clean long_sentence_prefix)

text \<open>
  C4 as the claim states it fails: in the line
  \<open>2025-06-12,                         11:20 a.m. - Sam: hello\<close> the first colon is
  at index 38, and the line is a header of the pattern \<open>android_iso\<close>, whose \<open>\s*\<close>
  before the time takes any number of spaces.
\<close>

theorem long_prefix_counterexample:
  "31 < length (takeWhile (\<lambda>c. c \<noteq> 58) (cleanText (trim spaced_line)))
   \<and> parseChat plain_host spaced_line =
       Inr \<lparr>messages = [\<lparr>date = str ''2025-06-12'', time = str ''11:20 a.m.'', sender = str ''Sam'',
                            content = JStr (str ''hello'')\<rparr>],
            participants = [str ''Sam'']\<rparr>"
  using spaced_line_parse[of plain_host] by (simp add: spaced_line_clean spaced_line_prefix)

text \<open>
  C7, as the code has it. The generic pattern captures its content with \<open>(.+)\<close>, and on
  a cleaned line the first match never captures white space only: a message started by
  a generic-pattern header line has a non-empty content. Continuation only appends, so
  when no line of the input matches a date-bearing pattern, every message of the
  line-based parse has a non-empty content. (The date-bearing patterns capture the
  content with \<open>(.*)\<close>, which may be empty.)
\<close>

theorem generic_content_nonempty:
  "(undated line \<and> regexp_exec False (p_regex generic) (cleanText (trim line)) = Some (i, m) \<longrightarrow>
      (\<exists>st' msg. line_step st line = Inr st' \<and> currentMessage st' = Some msg \<and> content msg \<noteq> []))
   \<and> (list_all undated (split_nl rawText) \<and> parseLines rawText = Inr r \<longrightarrow>
        list_all (\<lambda>msg. \<exists>c. content msg = JStr c \<and> c \<noteq> []) (messages r))"
proof -
  have a: "\<exists>st' msg. line_step st line = Inr st' \<and> currentMessage st' = Some msg \<and> content msg \<noteq> []"
    if "undated line" "regexp_exec False (p_regex generic) (cleanText (trim line)) = Some (i, m)"
    using undated_generic_step[OF that, of st] by blast
  have b: "list_all (\<lambda>msg. \<exists>c. content msg = JStr c \<and> c \<noteq> []) (messages r)"
    if "list_all undated (split_nl rawText)" "parseLines rawText = Inr r"
    using undated_parseLines[OF that] .
  from a b show ?thesis by blast
qed

theorem generic_content_nonempty_witness:
  "undated alex_line
   \<and> regexp_exec False (p_regex generic) (cleanText (trim alex_line)) = Some (0, alex_match)
   \<and> (\<exists>st' msg. line_step \<lparr>l_messages = [], l_participants = [], currentMessage = None\<rparr> alex_line = Inr st'
        \<and> currentMessage st' = Some msg \<and> content msg \<noteq> [])
   \<and> list_all undated (split_nl alex_two)
   \<and> parseLines alex_two =
       Inr \<lparr>messages = [\<lparr>date = str ''Unknown'', time = [], sender = str ''Alex'',
                            content = JStr (str ''first line'' @ [10] @ str ''second line'')\<rparr>],
            participants = [str ''Alex'']\<rparr>
   \<and> list_all (\<lambda>msg. \<exists>c. content msg = JStr c \<and> c \<noteq> [])
        [\<lparr>date = str ''Unknown'', time = [], sender = str ''Alex'',
          content = JStr (str ''first line'' @ [10] @ str ''second line'')\<rparr>]"
  using generic_content_nonempty[of alex_line 0 alex_match
      "\<lparr>l_messages = [], l_participants = [], currentMessage = None\<rparr>" alex_two
      "\<lparr>messages = [\<lparr>date = str ''Unknown'', time = [], sender = str ''Alex'',
                            content = JStr (str ''first line'' @ [10] @ str ''second line'')\<rparr>],
            participants = [str ''Alex'']\<rparr>"]
    alex_line_undated second_line_undated alex_exec alex_two_parseLines
  by (simp add: alex_line_clean alex_two_split)

text \<open>
  C7 as the claim states it fails: the header line \<open>2025-06-12, 11:20 a.m. - Sam:\<close>
  matches \<open>android_iso\<close> with an empty fifth group, and the message it creates has the
  empty content.
\<close>

theorem empty_content_counterexample:
  "regexp_exec True (p_regex android_iso) sam_empty = Some (0, sam_empty_match)
   \<and> cap sam_empty_match 5 = Some []
   \<and> parseChat plain_host sam_empty =
       Inr \<lparr>messages = [\<lparr>date = str ''2025-06-12'', time = str ''11:20 a.m.'', sender = str ''Sam'',
                            content = JStr []\<rparr>],
            participants = [str ''Sam'']\<rparr>"
  using sam_empty_exec sam_empty_parse[of plain_host] by (simp add: cap_def sam_empty_match_def)

text \<open>
  C9, as the code has it. \<open>fixMojibake\<close> raises nothing (whatever is thrown inside
  the \<open>try\<close> gives the text back) and returns the identical string exactly when the
  code units of the text, read as bytes, are not well-formed UTF-8, which is the case
  whenever a code unit is above 255, or when the text is pure ASCII. Every other text,
  that is every text whose code units are well-formed UTF-8 with at least one multi-byte
  sequence, is replaced by the text those bytes encode, which is strictly shorter,
  whether or not the text was already correct.
\<close>

theorem fixMojibake_identity:
  "((\<exists>c\<in>set t. 255 < c) \<or> \<not> utf8_wf t \<longrightarrow> fixMojibake h (JStr t) = JStr t)
   \<and> ((\<forall>c\<in>set t. c < 128) \<longrightarrow> fixMojibake h (JStr t) = JStr t)
   \<and> (utf8_wf t \<longrightarrow> (\<forall>c\<in>set t. c < 256) \<and> fixMojibake h (JStr t) = JStr (utf8_text t))
   \<and> (utf8_wf t \<and> (\<exists>c\<in>set t. 128 \<le> c) \<longrightarrow>
        length (utf8_text t) < length t \<and> fixMojibake h (JStr t) \<noteq> JStr t)
   \<and> (fixMojibake h (JStr t) = JStr t \<longleftrightarrow> \<not> utf8_wf t \<or> (\<forall>c\<in>set t. c < 128))"
proof (intro conjI impI)
  assume "(\<exists>c\<in>set t. 255 < c) \<or> \<not> utf8_wf t"
  then show "fixMojibake h (JStr t) = JStr t" by (rule fixMojibake_unchanged)
next
  assume "\<forall>c\<in>set t. c < 128"
  then show "fixMojibake h (JStr t) = JStr t" by (rule fixMojibake_ascii)
next
  assume "utf8_wf t"
  then show "\<forall>c\<in>set t. c < 256" by (rule utf8_wf_bytes)
next
  assume "utf8_wf t"
  then show "fixMojibake h (JStr t) = JStr (utf8_text t)" by (rule fixMojibake_wf)
next
  assume "utf8_wf t \<and> (\<exists>c\<in>set t. 128 \<le> c)"
  then show "length (utf8_text t) < length t" using utf8_text_length[of t] by blast
next
  assume "utf8_wf t \<and> (\<exists>c\<in>set t. 128 \<le> c)"
  then show "fixMojibake h (JStr t) \<noteq> JStr t" using fixMojibake_changed[of t h] by blast
next
  show "fixMojibake h (JStr t) = JStr t \<longleftrightarrow> \<not> utf8_wf t \<or> (\<forall>c\<in>set t. c < 128)"
    by (rule fixMojibake_same_iff)
qed

theorem fixMojibake_identity_witness:
  "255 < (8364::nat) \<and> fixMojibake plain_host (JStr [104, 8364]) = JStr [104, 8364]
   \<and> \<not> utf8_wf [233] \<and> fixMojibake plain_host (JStr [233]) = JStr [233]
   \<and> list_all (\<lambda>c. c < 128) (str ''hello'') \<and> fixMojibake plain_host (JStr (str ''hello'')) = JStr (str ''hello'')
   \<and> utf8_wf [83, 195, 160] \<and> 128 \<le> (195::nat) \<and> utf8_text [83, 195, 160] = [83, 224]
   \<and> fixMojibake plain_host (JStr [83, 195, 160]) = JStr [83, 224]
   \<and> fixMojibake plain_host (JStr [83, 195, 160]) \<noteq> JStr [83, 195, 160]"
proof -
  have a: "\<exists>c\<in>set [104, 8364::nat]. 255 < c" by simp
  have b: "\<not> utf8_wf [233]" by (simp add: leading_ones_def)
  have c: "\<forall>c\<in>set (str ''hello''). c < 128" by (simp add: str_def)
  have d: "utf8_wf [83, 195, 160]" by (simp add: leading_ones_def is_cont_def)
  have e: "\<exists>c\<in>set [83, 195, 160::nat]. 128 \<le> c" by simp
  have t: "utf8_text [83, 195, 160] = [83, 224]"
    by (simp add: leading_ones_def is_cont_def utf16_encode_def)
  from a fixMojibake_identity[of "[104, 8364]" plain_host]
  have 1: "fixMojibake plain_host (JStr [104, 8364]) = JStr [104, 8364]" by blast
  from b fixMojibake_identity[of "[233]" plain_host]
  have 2: "fixMojibake plain_host (JStr [233]) = JStr [233]" by blast
  from c fixMojibake_identity[of "str ''hello''" plain_host]
  have 3: "fixMojibake plain_host (JStr (str ''hello'')) = JStr (str ''hello'')" by blast
  from d fixMojibake_identity[of "[83, 195, 160]" plain_host]
  have 4: "fixMojibake plain_host (JStr [83, 195, 160]) = JStr (utf8_text [83, 195, 160])" by blast
  from d e fixMojibake_identity[of "[83, 195, 160]" plain_host]
  have 5: "fixMojibake plain_host (JStr [83, 195, 160]) \<noteq> JStr [83, 195, 160]" by blast
  from c have c': "list_all (\<lambda>c. c < 128) (str ''hello'')" by (simp add: list_all_iff)
  from 1 2 3 4[unfolded t] 5 b c' d t show ?thesis by simp
qed

text \<open>
  C9 as the claim states it fails: the two-character text U+00C3 U+00A9 is correct
  text (two scalar values; as UTF-8 it is the bytes C3 83 C2 A9), and the repair
  turns it into the one character U+00E9.
\<close>

theorem fixMojibake_counterexample:
  "well_formed_utf16 [195, 169]
   \<and> fixMojibake plain_host (JStr [195, 169]) = JStr [233]
   \<and> JStr [233] \<noteq> JStr [195, 169]"
  using mojibake_repaired[of plain_host] by simp




end
